theory Spec2Isabelle
  imports Main
begin

section \<open>JavaScript values\<close>

text \<open>
  The values the handlers of \<^verbatim>\<open>src/index.js\<close> touch: what \<^verbatim>\<open>JSON.parse\<close> returns, and
  \<^verbatim>\<open>undefined\<close>, which a property read of a missing field gives. An object is the list of
  its own properties, with distinct keys; a number is an integer, which is all the
  concrete runs below use.
\<close>

datatype js =
    Undefined
  | Null
  | Bool bool
  | Num int
  | Str string
  | Arr "js list"
  | Obj "(string \<times> js) list"

datatype error = SyntaxError | TypeError | ListenerError

type_synonym fields = "(string \<times> js) list"

text \<open>\<^verbatim>\<open>obj[k] = v\<close> on a plain object: an existing key keeps its place.\<close>

fun set_prop :: "fields \<Rightarrow> string \<Rightarrow> js \<Rightarrow> fields" where
  "set_prop [] k v = [(k, v)]"
| "set_prop ((k', v') # fs) k v =
     (if k' = k then (k, v) # fs else (k', v') # set_prop fs k v)"

text \<open>
  \<^verbatim>\<open>obj.name\<close>. Reading a property of \<^verbatim>\<open>null\<close> or \<^verbatim>\<open>undefined\<close> throws a TypeError;
  on every other value a name that is neither an own property nor on the prototype
  chain reads as \<^verbatim>\<open>undefined\<close>. The handlers read only \<^verbatim>\<open>ty\<close>, \<^verbatim>\<open>requester\<close>,
  \<^verbatim>\<open>data\<close>, \<^verbatim>\<open>RequestID\<close> and \<^verbatim>\<open>Data\<close>, none of which is on a built-in prototype.
\<close>

fun get_prop :: "js \<Rightarrow> string \<Rightarrow> error + js" where
  "get_prop Undefined name = Inl TypeError"
| "get_prop Null name = Inl TypeError"
| "get_prop (Obj fs) name =
     (case map_of fs name of None \<Rightarrow> Inr Undefined | Some v \<Rightarrow> Inr v)"
| "get_prop v name = Inr Undefined"

text \<open>Decimal digits of a natural number, as \<^verbatim>\<open>String(n)\<close> prints an integer.\<close>

definition digit_char :: "nat \<Rightarrow> char" where
  "digit_char d = char_of (48 + d)"

fun show_nat :: "nat \<Rightarrow> string" where
  "show_nat n = (if n < 10 then [digit_char n] else show_nat (n div 10) @ [digit_char (n mod 10)])"

declare show_nat.simps [simp del]

definition show_int :: "int \<Rightarrow> string" where
  "show_int i = (if i < 0 then CHR ''-'' # show_nat (nat (- i)) else show_nat (nat i))"

fun join_with :: "string \<Rightarrow> string list \<Rightarrow> string" where
  "join_with sep [] = []"
| "join_with sep [s] = s"
| "join_with sep (s # t # ss) = s @ sep @ join_with sep (t # ss)"

text \<open>
  The property key of \<^verbatim>\<open>pool[v]\<close>: \<^verbatim>\<open>ToString(v)\<close>. An array joins its elements with
  commas, \<^verbatim>\<open>null\<close> and \<^verbatim>\<open>undefined\<close> elements printing as the empty string.
\<close>

fun to_key :: "js \<Rightarrow> string" where
  "to_key Undefined = ''undefined''"
| "to_key Null = ''null''"
| "to_key (Bool b) = (if b then ''true'' else ''false'')"
| "to_key (Num i) = show_int i"
| "to_key (Str s) = s"
| "to_key (Arr xs) =
     join_with '','' (map (\<lambda>x. if x = Undefined \<or> x = Null then [] else to_key x) xs)"
| "to_key (Obj fs) = ''[object Object]''"

section \<open>A JSON reader\<close>

text \<open>
  \<^verbatim>\<open>JSON.parse\<close> belongs to the platform, not to the repository, so every handler below takes
  the parser as a parameter \<open>parse\<close>: \<open>None\<close> is the SyntaxError it throws. The
  theorems that quantify over \<open>parse\<close> hold for any parser. The concrete inputs are run
  with \<open>json_parse\<close>, a reader of the JSON grammar for documents whose numbers are
  integer literals and whose strings use no \<^verbatim>\<open>\u\<close> escape; a fraction, an exponent or a
  \<^verbatim>\<open>\u\<close> escape is outside what it reads. The fuel bounds the recursion and is the
  length of the text, which each call shortens.
\<close>

type_synonym parser = "string \<Rightarrow> js option"

definition is_ws :: "char \<Rightarrow> bool" where
  "is_ws c = (c = CHR '' '' \<or> c = CHR 0x09 \<or> c = CHR 0x0A \<or> c = CHR 0x0D)"

definition is_digit :: "char \<Rightarrow> bool" where
  "is_digit c = ((48::nat) \<le> of_char c \<and> (of_char c :: nat) \<le> 57)"

fun skip_ws :: "string \<Rightarrow> string" where
  "skip_ws [] = []"
| "skip_ws (c # cs) = (if is_ws c then skip_ws cs else c # cs)"

fun strip_prefix :: "string \<Rightarrow> string \<Rightarrow> string option" where
  "strip_prefix [] s = Some s"
| "strip_prefix (p # ps) [] = None"
| "strip_prefix (p # ps) (c # cs) = (if p = c then strip_prefix ps cs else None)"

fun digits_val :: "nat \<Rightarrow> string \<Rightarrow> nat" where
  "digits_val acc [] = acc"
| "digits_val acc (c # cs) = digits_val (10 * acc + (of_char c - 48)) cs"

text \<open>An unsigned integer literal: \<^verbatim>\<open>0\<close>, or a nonzero digit and more digits.\<close>

definition parse_nat :: "string \<Rightarrow> (nat \<times> string) option" where
  "parse_nat s =
     (let ds = takeWhile is_digit s; r = dropWhile is_digit s in
      if ds = [] then None
      else if hd ds = CHR ''0'' \<and> tl ds \<noteq> [] then None
      else if r \<noteq> [] \<and> (hd r = CHR ''.'' \<or> hd r = CHR ''e'' \<or> hd r = CHR ''E'') then None
      else Some (digits_val 0 ds, r))"

definition parse_number :: "string \<Rightarrow> (js \<times> string) option" where
  "parse_number s =
     (case s of
        [] \<Rightarrow> None
      | c # cs \<Rightarrow>
          if c = CHR ''-'' then
            (case parse_nat cs of None \<Rightarrow> None | Some (n, r) \<Rightarrow> Some (Num (- int n), r))
          else
            (case parse_nat s of None \<Rightarrow> None | Some (n, r) \<Rightarrow> Some (Num (int n), r)))"

text \<open>The characters of a string literal after its opening quote.\<close>

definition unescape :: "char \<Rightarrow> char option" where
  "unescape c =
     (if c = CHR 0x22 then Some (CHR 0x22)
      else if c = CHR 0x5C then Some (CHR 0x5C)
      else if c = CHR ''/'' then Some (CHR ''/'')
      else if c = CHR ''b'' then Some (CHR 0x08)
      else if c = CHR ''f'' then Some (CHR 0x0C)
      else if c = CHR ''n'' then Some (CHR 0x0A)
      else if c = CHR ''r'' then Some (CHR 0x0D)
      else if c = CHR ''t'' then Some (CHR 0x09)
      else None)"

fun parse_chars :: "string \<Rightarrow> (string \<times> string) option" where
  "parse_chars [] = None"
| "parse_chars [c] = (if c = CHR 0x22 then Some ([], []) else None)"
| "parse_chars (c # d # cs) =
     (if c = CHR 0x22 then Some ([], d # cs)
      else if c = CHR 0x5C then
        (case unescape d of
           None \<Rightarrow> None
         | Some e \<Rightarrow>
             (case parse_chars cs of None \<Rightarrow> None | Some (s, r) \<Rightarrow> Some (e # s, r)))
      else if (of_char c :: nat) < 32 then None
      else (case parse_chars (d # cs) of None \<Rightarrow> None | Some (s, r) \<Rightarrow> Some (c # s, r)))"

fun parse_value :: "nat \<Rightarrow> string \<Rightarrow> (js \<times> string) option"
  and parse_elements :: "nat \<Rightarrow> js list \<Rightarrow> string \<Rightarrow> (js \<times> string) option"
  and parse_members :: "nat \<Rightarrow> fields \<Rightarrow> string \<Rightarrow> (js \<times> string) option"
where
  "parse_value 0 s = None"
| "parse_value (Suc n) s =
     (case skip_ws s of
        [] \<Rightarrow> None
      | c # cs \<Rightarrow>
          if c = CHR ''{'' then
            (case skip_ws cs of
               [] \<Rightarrow> None
             | d # ds \<Rightarrow> if d = CHR ''}'' then Some (Obj [], ds) else parse_members n [] cs)
          else if c = CHR ''['' then
            (case skip_ws cs of
               [] \<Rightarrow> None
             | d # ds \<Rightarrow> if d = CHR '']'' then Some (Arr [], ds) else parse_elements n [] cs)
          else if c = CHR 0x22 then
            (case parse_chars cs of None \<Rightarrow> None | Some (str, r) \<Rightarrow> Some (Str str, r))
          else if c = CHR ''t'' then
            (case strip_prefix ''rue'' cs of None \<Rightarrow> None | Some r \<Rightarrow> Some (Bool True, r))
          else if c = CHR ''f'' then
            (case strip_prefix ''alse'' cs of None \<Rightarrow> None | Some r \<Rightarrow> Some (Bool False, r))
          else if c = CHR ''n'' then
            (case strip_prefix ''ull'' cs of None \<Rightarrow> None | Some r \<Rightarrow> Some (Null, r))
          else parse_number (c # cs))"
| "parse_elements 0 acc s = None"
| "parse_elements (Suc n) acc s =
     (case parse_value n s of
        None \<Rightarrow> None
      | Some (v, r) \<Rightarrow>
          (case skip_ws r of
             [] \<Rightarrow> None
           | c # cs \<Rightarrow>
               if c = CHR '','' then parse_elements n (acc @ [v]) cs
               else if c = CHR '']'' then Some (Arr (acc @ [v]), cs)
               else None))"
| "parse_members 0 acc s = None"
| "parse_members (Suc n) acc s =
     (case skip_ws s of
        [] \<Rightarrow> None
      | q # qs \<Rightarrow>
          if q \<noteq> CHR 0x22 then None
          else
            (case parse_chars qs of
               None \<Rightarrow> None
             | Some (k, r) \<Rightarrow>
                 (case skip_ws r of
                    [] \<Rightarrow> None
                  | c # cs \<Rightarrow>
                      if c \<noteq> CHR '':'' then None
                      else
                        (case parse_value n cs of
                           None \<Rightarrow> None
                         | Some (v, r') \<Rightarrow>
                             (case skip_ws r' of
                                [] \<Rightarrow> None
                              | e # es \<Rightarrow>
                                  if e = CHR '','' then parse_members n (set_prop acc k v) es
                                  else if e = CHR ''}'' then Some (Obj (set_prop acc k v), es)
                                  else None)))))"

definition json_parse :: parser where
  "json_parse text =
     (case parse_value (Suc (length text)) text of
        None \<Rightarrow> None
      | Some (v, r) \<Rightarrow> if skip_ws r = [] then Some v else None)"

section \<open>Delimiter framing\<close>

text \<open>The sentinel \<^verbatim>\<open>"\u0004"\<close> and \<^verbatim>\<open>String.prototype.split\<close> on one separator character:
  a text with \<open>n\<close> separators gives \<open>n + 1\<close> segments, the empty text one empty segment.\<close>

definition EOT :: char where
  "EOT = CHR 0x04"

fun split_str :: "char \<Rightarrow> string \<Rightarrow> string list" where
  "split_str sep [] = [[]]"
| "split_str sep (c # cs) =
     (if c = sep then [] # split_str sep cs
      else (case split_str sep cs of [] \<Rightarrow> [[c]] | s # ss \<Rightarrow> (c # s) # ss))"

section \<open>The client's state\<close>

text \<open>
  One record holds what the closures of a client share: the \<^verbatim>\<open>protocol_options\<close> object
  (\<open>collected_string\<close>, \<open>client\<close>, \<open>timeout\<close>, \<open>retry_interval\<close> and the
  \<open>destroy\<close> property that \<^verbatim>\<open>protocol.destroy\<close> calls), the \<open>reconnect\<close> flag, the
  \<^verbatim>\<open>protocol\<close> object (\<open>pool\<close>, \<open>event_listeners\<close>), and the runtime's side: the
  promises handed out, the armed \<^verbatim>\<open>setTimeout\<close> and \<^verbatim>\<open>setInterval\<close> timers, what was
  written to the connection, the listener calls made and the connections opened. The
  three variants of the client (\<^verbatim>\<open>src/index.js\<close>, and the two older files) share it;
  each touches only its own fields.

  A promise settles once: \<^verbatim>\<open>resolve\<close> and \<^verbatim>\<open>reject\<close> on a settled promise do nothing.
  A pool entry is the closure \<^verbatim>\<open>function (data) { clearTimeout(timer); resolve(data) }\<close>
  of one request, so the pool maps an id to the number of that request's promise,
  which also names its timer. The pool holds the object's own properties; the ids of
  \<^verbatim>\<open>randomstring.generate()\<close> (32 letters and digits) are never a name on
  \<^verbatim>\<open>Object.prototype\<close>. What a response finds under such a name is \<open>call_inherited\<close>
  below.
  A listener is a caller's function; of it the model keeps that it was called, with
  what, and whether it returned (\<open>True\<close>) or threw.
\<close>

datatype settled = Pending | Fulfilled js | Rejected string

datatype ready = Opening | Open | Closed

record socket =
  handle :: nat
  readyState :: ready

type_synonym listener = "js \<Rightarrow> bool"

record client_state =
  collected_string :: string
  client :: "socket option"
  timeout :: nat
  retry_interval :: nat
  destroy :: "unit option"
  reconnect :: bool
  pool :: "string \<rightharpoonup> nat"
  event_listeners :: "listener list"
  promises :: "settled list"
  timers :: "nat \<rightharpoonup> nat"
  intervals :: "nat \<rightharpoonup> fields"
  written :: "(nat \<times> fields) list"
  calls :: "(nat \<times> js) list"
  connections :: nat

definition settle :: "nat \<Rightarrow> settled \<Rightarrow> settled list \<Rightarrow> settled list" where
  "settle p v ps = (if p < length ps \<and> ps ! p = Pending then ps[p := v] else ps)"

text \<open>\<^verbatim>\<open>timeout || opts.timeout\<close>: an absent or zero timeout falls back to the option.\<close>

definition delay_of :: "nat option \<Rightarrow> nat \<Rightarrow> nat" where
  "delay_of tmo dflt = (case tmo of None \<Rightarrow> dflt | Some t \<Rightarrow> if t = 0 then dflt else t)"

section \<open>The request protocol of \<^verbatim>\<open>src/index.js\<close>\<close>

text \<open>
  \<^verbatim>\<open>protocol.request(data, timeout)\<close>; \<open>requester\<close> is what \<^verbatim>\<open>randomstring.generate()\<close>
  returned. The result is the promise returned and the new state. The document written
  is kept as it is before \<^verbatim>\<open>JSON.stringify\<close> and the sentinel are applied.
\<close>

definition request :: "string \<Rightarrow> fields \<Rightarrow> nat option \<Rightarrow> client_state \<Rightarrow> nat \<times> client_state" where
  "request requester data tmo st =
     (let data' = set_prop data ''requester'' (Str requester);
          p = length (promises st)
      in if client st \<noteq> None then
           (p, st\<lparr>written := written st @ [(p, data')],
                  promises := promises st @ [Pending],
                  timers := (timers st)(p \<mapsto> delay_of tmo (timeout st)),
                  pool := (pool st)(requester \<mapsto> p)\<rparr>)
         else (p, st\<lparr>promises := promises st @ [Rejected ''Client not connected'']\<rparr>))"

text \<open>The timer's function: \<^verbatim>\<open>reject("Request timed out")\<close>. A timer fires once, if armed.\<close>

definition fire_timeout :: "nat \<Rightarrow> client_state \<Rightarrow> client_state" where
  "fire_timeout p st =
     (case timers st p of
        None \<Rightarrow> st
      | Some d \<Rightarrow> st\<lparr>timers := (timers st)(p := None),
                      promises := settle p (Rejected ''Request timed out'') (promises st)\<rparr>)"

text \<open>The pool entry's function: \<^verbatim>\<open>clearTimeout(timer); resolve(data)\<close>.\<close>

definition callback :: "nat \<Rightarrow> js \<Rightarrow> client_state \<Rightarrow> client_state" where
  "callback p data st =
     st\<lparr>timers := (timers st)(p := None), promises := settle p (Fulfilled data) (promises st)\<rparr>"

definition add_event_listener :: "listener \<Rightarrow> client_state \<Rightarrow> client_state" where
  "add_event_listener func st = st\<lparr>event_listeners := event_listeners st @ [func]\<rparr>"

definition connected :: "client_state \<Rightarrow> bool" where
  "connected st = (case client st of None \<Rightarrow> False | Some c \<Rightarrow> readyState c = Open)"

text \<open>\<^verbatim>\<open>protocol.destroy\<close> calls \<^verbatim>\<open>opts.destroy()\<close>; calling \<^verbatim>\<open>undefined\<close> throws a TypeError.
  What a \<^verbatim>\<open>destroy\<close> supplied by a caller would do is the caller's.\<close>

definition protocol_destroy :: "client_state \<Rightarrow> error + client_state" where
  "protocol_destroy st = (case destroy st of None \<Rightarrow> Inl TypeError | Some u \<Rightarrow> Inr st)"

section \<open>The Unix socket client of \<^verbatim>\<open>src/index.js\<close>\<close>

text \<open>
  \<^verbatim>\<open>for (const listener of protocol.event_listeners) listener(obj.data)\<close>: the calls made, in
  order, each with its position in the list; a listener that throws ends the loop. The
  flag says whether the loop ran to its end.
\<close>

fun call_listeners :: "listener list \<Rightarrow> nat \<Rightarrow> js \<Rightarrow> (nat \<times> js) list \<times> bool" where
  "call_listeners [] i v = ([], True)"
| "call_listeners (l # ls) i v =
     (if l v then (case call_listeners ls (Suc i) v of (cs, ok) \<Rightarrow> ((i, v) # cs, ok))
      else ([(i, v)], False))"

text \<open>The response branch: look the entry up, call it, delete the entry.\<close>

definition respond :: "js \<Rightarrow> js \<Rightarrow> client_state \<Rightarrow> client_state" where
  "respond requester data st =
     (let key = to_key requester;
          st' = (case pool st key of None \<Rightarrow> st | Some p \<Rightarrow> callback p data st)
      in st'\<lparr>pool := (pool st')(key := None)\<rparr>)"

text \<open>
  \<^verbatim>\<open>protocol.pool\<close> is \<^verbatim>\<open>{}\<close> with \<^verbatim>\<open>Object.prototype\<close> behind it: under a key with no own
  entry, \<^verbatim>\<open>pool[key]\<close> is the inherited value when the key names a property of
  \<^verbatim>\<open>Object.prototype\<close>, and \<^verbatim>\<open>undefined\<close> otherwise. Every inherited value is truthy, so
  the handler calls it, with the document's \<^verbatim>\<open>data\<close> and with \<^verbatim>\<open>this\<close> undefined:
  \<^verbatim>\<open>constructor\<close> and \<^verbatim>\<open>toString\<close> return; \<^verbatim>\<open>isPrototypeOf\<close> returns on a primitive
  argument and throws a TypeError on an object; \<^verbatim>\<open>__proto__\<close> is not a function, and
  the others convert \<^verbatim>\<open>this\<close> to an object first: a TypeError. The call changes nothing
  of the client, and the \<^verbatim>\<open>delete\<close> after it, skipped when the call threw, finds no own
  property. \<open>call_inherited\<close> is the error of that call; \<open>respond_error\<close> is the
  error of the response branch, whose own entries never throw.
\<close>

definition prototype_names :: "string list" where
  "prototype_names =
     [''constructor'', ''__defineGetter__'', ''__defineSetter__'', ''hasOwnProperty'',
      ''__lookupGetter__'', ''__lookupSetter__'', ''isPrototypeOf'', ''propertyIsEnumerable'',
      ''toString'', ''valueOf'', ''__proto__'', ''toLocaleString'']"

fun is_object :: "js \<Rightarrow> bool" where
  "is_object (Arr xs) = True"
| "is_object (Obj fs) = True"
| "is_object v = False"

definition call_inherited :: "string \<Rightarrow> js \<Rightarrow> error option" where
  "call_inherited key data =
     (if key \<notin> set prototype_names then None
      else if key = ''constructor'' \<or> key = ''toString'' then None
      else if key = ''isPrototypeOf'' \<and> \<not> is_object data then None
      else Some TypeError)"

definition respond_error :: "js \<Rightarrow> js \<Rightarrow> client_state \<Rightarrow> error option" where
  "respond_error requester data st =
     (case pool st (to_key requester) of
        None \<Rightarrow> call_inherited (to_key requester) data
      | Some p \<Rightarrow> None)"

text \<open>
  The body of the \<^verbatim>\<open>try\<close> for one segment: the error thrown, if any, and the state
  reached when it was thrown.
\<close>

definition try_segment :: "parser \<Rightarrow> string \<Rightarrow> client_state \<Rightarrow> error option \<times> client_state" where
  "try_segment parse json st =
     (case parse json of
        None \<Rightarrow> (Some SyntaxError, st)
      | Some obj \<Rightarrow>
          (case get_prop obj ''ty'' of
             Inl e \<Rightarrow> (Some e, st)
           | Inr ty \<Rightarrow>
               if ty = Str ''event'' then
                 (case get_prop obj ''data'' of
                    Inl e \<Rightarrow> (Some e, st)
                  | Inr d \<Rightarrow>
                      (case call_listeners (event_listeners st) 0 d of
                         (cs, ok) \<Rightarrow>
                           (if ok then None else Some ListenerError, st\<lparr>calls := calls st @ cs\<rparr>)))
               else
                 (case get_prop obj ''requester'' of
                    Inl e \<Rightarrow> (Some e, st)
                  | Inr r \<Rightarrow>
                      (case get_prop obj ''data'' of
                         Inl e \<Rightarrow> (Some e, st)
                       | Inr d \<Rightarrow> (respond_error r d st, respond r d st)))))"

text \<open>One turn of the \<^verbatim>\<open>forEach\<close>: an empty segment is skipped, the \<^verbatim>\<open>catch\<close> is empty.\<close>

definition handle_segment :: "parser \<Rightarrow> string \<Rightarrow> client_state \<Rightarrow> client_state" where
  "handle_segment parse json st = (if json \<noteq> [] then snd (try_segment parse json st) else st)"

fun for_each :: "('a \<Rightarrow> 's \<Rightarrow> 's) \<Rightarrow> 'a list \<Rightarrow> 's \<Rightarrow> 's" where
  "for_each f [] st = st"
| "for_each f (x # xs) st = for_each f xs (f x st)"

text \<open>The \<^verbatim>\<open>'data'\<close> handler; \<open>data\<close> is the chunk after \<^verbatim>\<open>toString()\<close>.\<close>

definition on_data :: "parser \<Rightarrow> string \<Rightarrow> client_state \<Rightarrow> client_state" where
  "on_data parse data st =
     (let st1 = st\<lparr>collected_string := collected_string st @ data\<rparr>
      in if EOT \<in> set (collected_string st1) then
           (for_each (handle_segment parse) (split_str EOT (collected_string st1)) st1)
             \<lparr>collected_string := []\<rparr>
         else st1)"

text \<open>\<^verbatim>\<open>rec\<close> opens a connection; the \<^verbatim>\<open>'error'\<close> and \<^verbatim>\<open>'close'\<close> handlers destroy the
  socket and forget it; the \<^verbatim>\<open>'connect'\<close> handler asks for the daemon's version; the
  \<^verbatim>\<open>setInterval\<close> function reconnects every 2000 ms.\<close>

definition rec :: "client_state \<Rightarrow> client_state" where
  "rec st = st\<lparr>client := Some \<lparr>handle = connections st, readyState = Opening\<rparr>,
               connections := Suc (connections st)\<rparr>"

definition on_connect :: "string \<Rightarrow> client_state \<Rightarrow> client_state" where
  "on_connect requester st =
     snd (request requester [(''ty'', Str ''socket_version'')] None
            (st\<lparr>client := map_option (\<lambda>c. c\<lparr>readyState := Open\<rparr>) (client st)\<rparr>))"

definition on_error :: "client_state \<Rightarrow> client_state" where
  "on_error st = st\<lparr>client := None\<rparr>"

definition on_close :: "client_state \<Rightarrow> client_state" where
  "on_close st = st\<lparr>client := None\<rparr>"

definition tick :: "client_state \<Rightarrow> client_state" where
  "tick st = (if client st = None \<and> reconnect st then rec st else st)"

record client_opts =
  opt_timeout :: "nat option"
  opt_reconnect :: "bool option"

definition newUnixClient :: "client_opts option \<Rightarrow> client_state" where
  "newUnixClient opts =
     rec \<lparr>collected_string = [], client = None,
          timeout = (case opts of None \<Rightarrow> 5000
                     | Some r \<Rightarrow> (case opt_timeout r of None \<Rightarrow> 5000 | Some t \<Rightarrow> t)),
          retry_interval = 0,
          destroy = None,
          reconnect = (case opts of None \<Rightarrow> True
                       | Some r \<Rightarrow> (case opt_reconnect r of None \<Rightarrow> True | Some b \<Rightarrow> b)),
          pool = Map.empty, event_listeners = [], promises = [], timers = Map.empty,
          intervals = Map.empty, written = [], calls = [], connections = 0\<rparr>"

text \<open>What can happen to a client, and a run of such events. A \<^verbatim>\<open>destroy()\<close> that throws
  leaves the state as it was, the error going to the caller.\<close>

datatype event =
    Request string fields "nat option"
  | Data string
  | Timeout nat
  | Connect string
  | SockError
  | SockClose
  | Tick
  | AddListener listener
  | Destroy

fun step :: "parser \<Rightarrow> client_state \<Rightarrow> event \<Rightarrow> client_state" where
  "step parse st (Request requester data tmo) = snd (request requester data tmo st)"
| "step parse st (Data chunk) = on_data parse chunk st"
| "step parse st (Timeout p) = fire_timeout p st"
| "step parse st (Connect requester) = on_connect requester st"
| "step parse st SockError = on_error st"
| "step parse st SockClose = on_close st"
| "step parse st Tick = tick st"
| "step parse st (AddListener func) = add_event_listener func st"
| "step parse st Destroy = (case protocol_destroy st of Inl e \<Rightarrow> st | Inr st' \<Rightarrow> st')"

definition run :: "parser \<Rightarrow> event list \<Rightarrow> client_state \<Rightarrow> client_state" where
  "run parse evs st = foldl (step parse) st evs"

section \<open>The older Unix socket client\<close>

text \<open>
  The earlier file keeps \<^verbatim>\<open>collected_string\<close> and \<^verbatim>\<open>client\<close> as variables of
  \<^verbatim>\<open>newUnixClient\<close>, has no event branch in its \<^verbatim>\<open>'data'\<close> handler, takes no timeout per
  request, and its \<^verbatim>\<open>protocol.destroy\<close> is \<^verbatim>\<open>client.destroy()\<close>: a TypeError on
  \<^verbatim>\<open>null\<close>, and otherwise a destroyed socket whose \<^verbatim>\<open>'close'\<close> event follows.
\<close>

definition old_request :: "string \<Rightarrow> fields \<Rightarrow> client_state \<Rightarrow> nat \<times> client_state" where
  "old_request requester data st =
     (let data' = set_prop data ''requester'' (Str requester);
          p = length (promises st)
      in if client st \<noteq> None then
           (p, st\<lparr>written := written st @ [(p, data')],
                  promises := promises st @ [Pending],
                  timers := (timers st)(p \<mapsto> timeout st),
                  pool := (pool st)(requester \<mapsto> p)\<rparr>)
         else (p, st\<lparr>promises := promises st @ [Rejected ''Client not connected'']\<rparr>))"

definition old_try_segment :: "parser \<Rightarrow> string \<Rightarrow> client_state \<Rightarrow> error option \<times> client_state" where
  "old_try_segment parse json st =
     (case parse json of
        None \<Rightarrow> (Some SyntaxError, st)
      | Some obj \<Rightarrow>
          (case get_prop obj ''requester'' of
             Inl e \<Rightarrow> (Some e, st)
           | Inr r \<Rightarrow>
               (case get_prop obj ''data'' of
                  Inl e \<Rightarrow> (Some e, st)
                | Inr d \<Rightarrow> (respond_error r d st, respond r d st))))"

definition old_handle_segment :: "parser \<Rightarrow> string \<Rightarrow> client_state \<Rightarrow> client_state" where
  "old_handle_segment parse json st =
     (if json \<noteq> [] then snd (old_try_segment parse json st) else st)"

definition old_on_data :: "parser \<Rightarrow> string \<Rightarrow> client_state \<Rightarrow> client_state" where
  "old_on_data parse data st =
     (let st1 = st\<lparr>collected_string := collected_string st @ data\<rparr>
      in if EOT \<in> set (collected_string st1) then
           (for_each (old_handle_segment parse) (split_str EOT (collected_string st1)) st1)
             \<lparr>collected_string := []\<rparr>
         else st1)"

definition old_destroy :: "client_state \<Rightarrow> error + client_state" where
  "old_destroy st =
     (case client st of
        None \<Rightarrow> Inl TypeError
      | Some c \<Rightarrow> Inr (st\<lparr>client := Some (c\<lparr>readyState := Closed\<rparr>)\<rparr>))"

section \<open>The WebSocket client\<close>

text \<open>
  The message-framed file: \<^verbatim>\<open>protocol.request(name, data, timeout)\<close> sends at once when
  connected and otherwise arms an interval that sends on its first turn that finds the
  connection open and then clears itself; the timeout clears the interval and rejects.
  \<open>intervals\<close> holds the armed intervals with the document each will send, under the
  number of the request's promise. \<^verbatim>\<open>protocol.connected()\<close> is \<open>connected\<close>:
  \<^verbatim>\<open>readyState === 1\<close> is the open state.
\<close>

definition ws_request ::
  "string \<Rightarrow> string \<Rightarrow> fields option \<Rightarrow> nat option \<Rightarrow> client_state \<Rightarrow> nat \<times> client_state" where
  "ws_request request_id name data tmo st =
     (let data0 = (case data of None \<Rightarrow> [] | Some d \<Rightarrow> d);
          data1 = set_prop (set_prop data0 ''Name'' (Str name)) ''RequestID'' (Str request_id);
          p = length (promises st);
          st1 = (if connected st then st\<lparr>written := written st @ [(p, data1)]\<rparr>
                 else st\<lparr>intervals := (intervals st)(p \<mapsto> data1)\<rparr>)
      in (p, st1\<lparr>promises := promises st1 @ [Pending],
                  timers := (timers st1)(p \<mapsto> delay_of tmo (timeout st1)),
                  pool := (pool st1)(request_id \<mapsto> p)\<rparr>))"

text \<open>One turn of the interval of request \<open>p\<close>, if it is armed.\<close>

definition ws_retry :: "nat \<Rightarrow> client_state \<Rightarrow> client_state" where
  "ws_retry p st =
     (case intervals st p of
        None \<Rightarrow> st
      | Some d \<Rightarrow>
          if connected st then
            st\<lparr>written := written st @ [(p, d)], intervals := (intervals st)(p := None)\<rparr>
          else st)"

text \<open>The timer's function: \<^verbatim>\<open>if (interval) clearInterval(interval); reject(...)\<close>.\<close>

definition ws_fire_timeout :: "nat \<Rightarrow> client_state \<Rightarrow> client_state" where
  "ws_fire_timeout p st =
     (case timers st p of
        None \<Rightarrow> st
      | Some d \<Rightarrow> st\<lparr>intervals := (intervals st)(p := None),
                      timers := (timers st)(p := None),
                      promises := settle p (Rejected ''Request timed out'') (promises st)\<rparr>)"

definition ws_try_message :: "parser \<Rightarrow> string \<Rightarrow> client_state \<Rightarrow> error option \<times> client_state" where
  "ws_try_message parse data st =
     (case parse data of
        None \<Rightarrow> (Some SyntaxError, st)
      | Some obj \<Rightarrow>
          (case get_prop obj ''RequestID'' of
             Inl e \<Rightarrow> (Some e, st)
           | Inr r \<Rightarrow>
               (case get_prop obj ''Data'' of
                  Inl e \<Rightarrow> (Some e, st)
                | Inr d \<Rightarrow> (respond_error r d st, respond r d st))))"

definition ws_on_message :: "parser \<Rightarrow> string \<Rightarrow> client_state \<Rightarrow> client_state" where
  "ws_on_message parse data st = snd (ws_try_message parse data st)"

text \<open>The \<^verbatim>\<open>'open'\<close> handler only logs; the socket itself is open from then on.\<close>

definition ws_on_open :: "client_state \<Rightarrow> client_state" where
  "ws_on_open st = st\<lparr>client := map_option (\<lambda>c. c\<lparr>readyState := Open\<rparr>) (client st)\<rparr>"

record ws_opts =
  ws_retry_interval :: "nat option"
  ws_timeout :: "nat option"
  ws_reconnect :: "bool option"

definition newClient :: "ws_opts option \<Rightarrow> client_state" where
  "newClient opts =
     rec \<lparr>collected_string = [], client = None,
          timeout = (case opts of None \<Rightarrow> 5000
                     | Some r \<Rightarrow> (case ws_timeout r of None \<Rightarrow> 5000 | Some t \<Rightarrow> t)),
          retry_interval = (case opts of None \<Rightarrow> 200
                     | Some r \<Rightarrow> (case ws_retry_interval r of None \<Rightarrow> 200 | Some t \<Rightarrow> t)),
          destroy = None,
          reconnect = (case opts of None \<Rightarrow> True
                       | Some r \<Rightarrow> (case ws_reconnect r of None \<Rightarrow> True | Some b \<Rightarrow> b)),
          pool = Map.empty, event_listeners = [], promises = [], timers = Map.empty,
          intervals = Map.empty, written = [], calls = [], connections = 0\<rparr>"

datatype ws_event =
    WsRequest string string "fields option" "nat option"
  | WsMessage string
  | WsTimeout nat
  | WsRetry nat
  | WsOpen
  | WsError
  | WsClose
  | WsTick

fun ws_step :: "parser \<Rightarrow> client_state \<Rightarrow> ws_event \<Rightarrow> client_state" where
  "ws_step parse st (WsRequest request_id name data tmo) = snd (ws_request request_id name data tmo st)"
| "ws_step parse st (WsMessage data) = ws_on_message parse data st"
| "ws_step parse st (WsTimeout p) = ws_fire_timeout p st"
| "ws_step parse st (WsRetry p) = ws_retry p st"
| "ws_step parse st WsOpen = ws_on_open st"
| "ws_step parse st WsError = on_error st"
| "ws_step parse st WsClose = on_close st"
| "ws_step parse st WsTick = tick st"

definition ws_run :: "parser \<Rightarrow> ws_event list \<Rightarrow> client_state \<Rightarrow> client_state" where
  "ws_run parse evs st = foldl (ws_step parse) st evs"

text \<open>A run of the older Unix client: its own request, \<^verbatim>\<open>'data'\<close> handler and
  \<^verbatim>\<open>destroy\<close>, the other handlers being the same.\<close>

datatype old_event =
    OldRequest string fields
  | OldData string
  | OldTimeout nat
  | OldError
  | OldClose
  | OldTick
  | OldDestroy

fun old_step :: "parser \<Rightarrow> client_state \<Rightarrow> old_event \<Rightarrow> client_state" where
  "old_step parse st (OldRequest requester data) = snd (old_request requester data st)"
| "old_step parse st (OldData chunk) = old_on_data parse chunk st"
| "old_step parse st (OldTimeout p) = fire_timeout p st"
| "old_step parse st OldError = on_error st"
| "old_step parse st OldClose = on_close st"
| "old_step parse st OldTick = tick st"
| "old_step parse st OldDestroy = (case old_destroy st of Inl e \<Rightarrow> st | Inr st' \<Rightarrow> st')"

definition old_run :: "parser \<Rightarrow> old_event list \<Rightarrow> client_state \<Rightarrow> client_state" where
  "old_run parse evs st = foldl (old_step parse) st evs"

section \<open>Observations and invariants\<close>

text \<open>How often the document of request \<open>p\<close> was handed to the connection.\<close>

definition sends :: "nat \<Rightarrow> client_state \<Rightarrow> nat" where
  "sends p st = length (filter (\<lambda>e. fst e = p) (written st))"

text \<open>
  What every run keeps: an armed timer belongs to a promise that is still pending, and
  a pending promise has its timer armed; a pool entry names a promise that exists, and
  no two entries name the same promise; an armed interval and a written document belong
  to a promise that exists.
\<close>

definition consistent :: "client_state \<Rightarrow> bool" where
  "consistent st \<longleftrightarrow>
     (\<forall>p. timers st p \<noteq> None \<longrightarrow> p < length (promises st) \<and> promises st ! p = Pending) \<and>
     (\<forall>p. p < length (promises st) \<and> promises st ! p = Pending \<longrightarrow> timers st p \<noteq> None) \<and>
     (\<forall>k p. pool st k = Some p \<longrightarrow> p < length (promises st)) \<and>
     (\<forall>k k' p. pool st k = Some p \<and> pool st k' = Some p \<longrightarrow> k = k') \<and>
     (\<forall>p. intervals st p \<noteq> None \<longrightarrow> p < length (promises st)) \<and>
     (\<forall>e \<in> set (written st). fst e < length (promises st))"

text \<open>Promise \<open>p\<close> exists and is in state \<open>x\<close>.\<close>

definition kept :: "nat \<Rightarrow> settled \<Rightarrow> client_state \<Rightarrow> bool" where
  "kept p x st \<longleftrightarrow> p < length (promises st) \<and> promises st ! p = x"

text \<open>Promise \<open>p\<close> has no entry in the pool and is pending or timed out.\<close>

definition orphan :: "nat \<Rightarrow> client_state \<Rightarrow> bool" where
  "orphan p st \<longleftrightarrow>
     p < length (promises st) \<and> (\<forall>k. pool st k \<noteq> Some p) \<and>
     (promises st ! p = Pending \<or> promises st ! p = Rejected ''Request timed out'')"

text \<open>
  The send state of request \<open>p\<close> of the WebSocket client, whose document is \<open>doc\<close>:
  while its interval is armed the interval holds \<open>doc\<close> and nothing was sent for
  \<open>p\<close>; once the interval is cleared, what was sent for \<open>p\<close> is nothing or \<open>doc\<close>
  once. And: the interval of \<open>p\<close> is cleared and what was sent for \<open>p\<close> is \<open>w\<close>.
\<close>

definition queued :: "nat \<Rightarrow> fields \<Rightarrow> client_state \<Rightarrow> bool" where
  "queued p doc st \<longleftrightarrow>
     p < length (promises st) \<and>
     (if intervals st p = None
      then filter (\<lambda>e. fst e = p) (written st) = [] \<or>
           filter (\<lambda>e. fst e = p) (written st) = [(p, doc)]
      else intervals st p = Some doc \<and> filter (\<lambda>e. fst e = p) (written st) = [])"

definition cleared :: "nat \<Rightarrow> (nat \<times> fields) list \<Rightarrow> client_state \<Rightarrow> bool" where
  "cleared p w st \<longleftrightarrow>
     p < length (promises st) \<and> intervals st p = None \<and>
     filter (\<lambda>e. fst e = p) (written st) = w"

section \<open>Concrete runs\<close>

text \<open>The spec's scenario 9: requests \<open>a\<close> and \<open>b\<close> pending on a fresh Unix client, and
  the two frames that answer them.\<close>

definition two_pending :: client_state where
  "two_pending = snd (request ''b'' [] None (snd (request ''a'' [] None (newUnixClient None))))"

definition frame_a :: string where
  \<open>frame_a = ''{"requester":"a","data":1}''\<close>

definition frame_b :: string where
  \<open>frame_b = ''{"requester":"b","data":2}''\<close>





text \<open>The spec's scenario 10: an event document, and a client with two listeners of
  which the first throws and the second returns.\<close>

definition failing_listener :: listener where
  "failing_listener v = False"

definition quiet_listener :: listener where
  "quiet_listener v = True"

definition event_frame :: string where
  \<open>event_frame = ''{"ty":"event","data":{"x":1}}''\<close>

definition two_listeners :: client_state where
  "two_listeners =
     add_event_listener quiet_listener (add_event_listener failing_listener (newUnixClient None))"

text \<open>The spec's scenario 7: one request \<open>abc\<close> with a timeout of 50 ms on a fresh Unix
  client, the frame that answers it, the client after the timer has fired, and a second
  request under the same id.\<close>

definition abc_pending :: client_state where
  "abc_pending = run json_parse [Request ''abc'' [] (Some 50)] (newUnixClient None)"

definition abc_frame :: string where
  \<open>abc_frame = ''{"requester":"abc","data":7}''\<close>


definition abc_twice :: client_state where
  "abc_twice = snd (request ''abc'' [] None abc_pending)"

text \<open>The spec's scenario 8: one request, and two, issued on a fresh WebSocket client,
  which is not yet open.\<close>

definition ws_queued :: client_state where
  "ws_queued = ws_run json_parse [WsRequest ''r1'' ''List Connected Devices'' None None] (newClient None)"

definition ws_two_queued :: client_state where
  "ws_two_queued =
     ws_run json_parse
       [WsRequest ''r1'' ''List Connected Devices'' None None,
        WsRequest ''r2'' ''List Discovered Devices'' None None] (newClient None)"

section \<open>Segments and the loop over them\<close>

lemma split_str_nonempty: "split_str sep s \<noteq> []"
  by (induction s) (auto split: list.splits)

lemma split_str_append: "split_str sep (x @ sep # y) = split_str sep x @ split_str sep y"
proof (induction x)
  case Nil
  show ?case by simp
next
  case (Cons c x)
  obtain s ss where s: "split_str sep x = s # ss"
    using split_str_nonempty [of sep x] by (cases "split_str sep x") auto
  with Cons show ?case by simp
qed

lemma split_str_no_sep: "sep \<notin> set s \<Longrightarrow> split_str sep s = [s]"
  by (induction s) auto

lemma single_frame_segments: "EOT \<notin> set json \<Longrightarrow> split_str EOT (json @ [EOT]) = [json, []]"
  using split_str_append [of EOT json "[]"] by (simp add: split_str_no_sep)




lemma for_each_keeps:
  assumes "\<And>x s. g (f x s) = g s"
  shows "g (for_each f xs st) = g st"
  by (induction xs arbitrary: st) (simp_all add: assms)

lemma for_each_inv:
  assumes "\<And>x s. P s \<Longrightarrow> P (f x s)"
  shows "P st \<Longrightarrow> P (for_each f xs st)"
  by (induction xs arbitrary: st) (simp_all add: assms)


section \<open>Settling a promise\<close>

lemma settle_length: "length (settle p v ps) = length ps"
  by (simp add: settle_def)

lemma settle_other: "q \<noteq> p \<Longrightarrow> settle p v ps ! q = ps ! q"
  by (simp add: settle_def)

lemma settle_settled: "ps ! q \<noteq> Pending \<Longrightarrow> settle p v ps ! q = ps ! q"
  by (cases "q = p") (simp_all add: settle_def)

lemma settle_pending: "p < length ps \<Longrightarrow> ps ! p = Pending \<Longrightarrow> settle p v ps ! p = v"
  by (simp add: settle_def)

lemma settle_cases: "settle p v ps ! q = ps ! q \<or> (q = p \<and> ps ! q = Pending \<and> settle p v ps ! q = v)"
  by (cases "q = p") (auto simp add: settle_def)

section \<open>What the handlers touch\<close>

lemma get_prop_total: "get_prop obj n = Inr v \<Longrightarrow> \<exists>w. get_prop obj m = Inr w"
  by (cases obj) (auto split: option.splits)

lemma respond_stale: "pool st (to_key r) = None \<Longrightarrow> respond r d st = st"
  by (simp add: respond_def Let_def fun_upd_idem)

lemma respond_unfold:
  "respond r d st =
     (case pool st (to_key r) of
        None \<Rightarrow> st
      | Some p \<Rightarrow> (callback p d st)\<lparr>pool := (pool st)(to_key r := None)\<rparr>)"
  by (simp add: respond_def callback_def Let_def fun_upd_idem split: option.splits)

lemma respond_fields:
  "destroy (respond r d st) = destroy st \<and> client (respond r d st) = client st \<and>
   reconnect (respond r d st) = reconnect st \<and> connections (respond r d st) = connections st \<and>
   event_listeners (respond r d st) = event_listeners st \<and> written (respond r d st) = written st \<and>
   intervals (respond r d st) = intervals st \<and> timeout (respond r d st) = timeout st \<and>
   calls (respond r d st) = calls st \<and>
   length (promises (respond r d st)) = length (promises st)"
  by (simp add: respond_def callback_def settle_def Let_def split: option.splits)

lemma respond_promises:
  "promises (respond r d st) =
     (case pool st (to_key r) of None \<Rightarrow> promises st
      | Some q \<Rightarrow> settle q (Fulfilled d) (promises st))"
  by (simp add: respond_unfold callback_def split: option.splits)

lemma respond_timers:
  "timers (respond r d st) =
     (case pool st (to_key r) of None \<Rightarrow> timers st | Some q \<Rightarrow> (timers st)(q := None))"
  by (simp add: respond_unfold callback_def split: option.splits)



lemma handle_segment_buffer:
  "handle_segment parse json (st\<lparr>collected_string := c\<rparr>) =
   (handle_segment parse json st)\<lparr>collected_string := c\<rparr>"
  by (simp add: handle_segment_def try_segment_def respond_def callback_def Let_def
      split: option.splits sum.splits prod.splits)


lemma handle_segment_empty: "handle_segment parse [] st = st"
  by (simp add: handle_segment_def)


lemma handle_segment_fields:
  "destroy (handle_segment parse json st) = destroy st \<and>
   client (handle_segment parse json st) = client st \<and>
   reconnect (handle_segment parse json st) = reconnect st \<and>
   connections (handle_segment parse json st) = connections st \<and>
   event_listeners (handle_segment parse json st) = event_listeners st \<and>
   written (handle_segment parse json st) = written st \<and>
   intervals (handle_segment parse json st) = intervals st \<and>
   timeout (handle_segment parse json st) = timeout st \<and>
   length (promises (handle_segment parse json st)) = length (promises st)"
  by (simp add: handle_segment_def try_segment_def respond_fields
      split: option.splits sum.splits prod.splits)

lemma for_each_handle_length:
  "length (promises (for_each (handle_segment parse) xs st)) = length (promises st)"
  using for_each_keeps [where g = "\<lambda>s. length (promises s)" and f = "handle_segment parse"]
  by (simp add: handle_segment_fields)

lemma on_data_fields:
  "destroy (on_data parse data st) = destroy st \<and>
   client (on_data parse data st) = client st \<and>
   reconnect (on_data parse data st) = reconnect st \<and>
   connections (on_data parse data st) = connections st \<and>
   event_listeners (on_data parse data st) = event_listeners st \<and>
   written (on_data parse data st) = written st \<and>
   intervals (on_data parse data st) = intervals st \<and>
   timeout (on_data parse data st) = timeout st \<and>
   length (promises (on_data parse data st)) = length (promises st)"
  by (simp add: on_data_def Let_def for_each_keeps handle_segment_fields for_each_handle_length)

lemma on_data_single:
  assumes "EOT \<notin> set json" and "collected_string st = []"
  shows "on_data parse (json @ [EOT]) st = handle_segment parse json st"
proof -
  have "st\<lparr>collected_string := []\<rparr> = st"
    using assms(2) by simp
  then have "(handle_segment parse json st)\<lparr>collected_string := []\<rparr> = handle_segment parse json st"
    using handle_segment_buffer [where parse = parse and json = json and st = st and c = "[]"]
    by simp
  then show ?thesis
    using assms
    by (simp add: on_data_def single_frame_segments handle_segment_buffer handle_segment_empty)
qed

lemma handle_segment_response:
  assumes "parse json = Some obj" and "json \<noteq> []"
    and "get_prop obj ''ty'' \<noteq> Inr (Str ''event'')"
    and "get_prop obj ''requester'' = Inr r" and "get_prop obj ''data'' = Inr d"
  shows "handle_segment parse json st = respond r d st"
proof -
  obtain ty where "get_prop obj ''ty'' = Inr ty" "ty \<noteq> Str ''event''"
    using assms(3) get_prop_total [OF assms(4), of "''ty''"] by auto
  with assms show ?thesis by (simp add: handle_segment_def try_segment_def)
qed

lemma call_listeners_all:
  "\<forall>l \<in> set ls. l v \<Longrightarrow> call_listeners ls i v = (map (\<lambda>j. (j, v)) [i ..< i + length ls], True)"
proof (induction ls arbitrary: i)
  case Nil
  show ?case by simp
next
  case (Cons l ls)
  from Cons.prems have "\<forall>l \<in> set ls. l v" by auto
  then have "call_listeners ls (Suc i) v = (map (\<lambda>j. (j, v)) [Suc i ..< Suc i + length ls], True)"
    by (rule Cons.IH)
  with Cons.prems show ?case by (simp add: upt_conv_Cons del: upt_Suc)
qed

lemma call_listeners_prefix:
  "fst (call_listeners ls i v) =
     map (\<lambda>j. (j, v)) [i ..< i + min (length ls) (Suc (length (takeWhile (\<lambda>l. l v) ls)))]"
proof (induction ls arbitrary: i)
  case Nil
  show ?case by simp
next
  case (Cons l ls)
  show ?case
  proof (cases "l v")
    case True
    have "min (length (l # ls)) (Suc (length (takeWhile (\<lambda>l. l v) (l # ls)))) =
          Suc (min (length ls) (Suc (length (takeWhile (\<lambda>l. l v) ls))))"
      using True by simp
    with True Cons [of "Suc i"] show ?thesis
      by (auto simp add: upt_conv_Cons split: prod.splits simp del: upt_Suc)
  next
    case False
    then show ?thesis by (simp add: upt_conv_Cons del: upt_Suc)
  qed
qed

lemma run_Cons: "run parse (ev # evs) st = run parse evs (step parse st ev)"
  by (simp add: run_def)

lemma run_Nil: "run parse [] st = st"
  by (simp add: run_def)

lemma step_destroy_field: "destroy (step parse st ev) = destroy st"
  by (cases ev)
    (simp_all add: request_def Let_def on_data_fields fire_timeout_def on_connect_def
      on_error_def on_close_def tick_def rec_def add_event_listener_def protocol_destroy_def
      split: option.splits)

lemma run_destroy_field: "destroy (run parse evs st) = destroy st"
  unfolding run_def by (induction evs arbitrary: st) (simp_all add: step_destroy_field)

lemma newUnixClient_destroy: "destroy (newUnixClient opts) = None"
  by (simp add: newUnixClient_def rec_def)


lemma ws_on_message_fields:
  "written (ws_on_message parse data st) = written st \<and>
   intervals (ws_on_message parse data st) = intervals st \<and>
   client (ws_on_message parse data st) = client st \<and>
   length (promises (ws_on_message parse data st)) = length (promises st)"
  by (simp add: ws_on_message_def ws_try_message_def respond_fields
      split: option.splits sum.splits)

lemma ws_request_fields:
  "promises (snd (ws_request rid name data tmo st)) = promises st @ [Pending] \<and>
   timers (snd (ws_request rid name data tmo st)) =
     (timers st)(length (promises st) \<mapsto> delay_of tmo (timeout st)) \<and>
   pool (snd (ws_request rid name data tmo st)) = (pool st)(rid \<mapsto> length (promises st)) \<and>
   client (snd (ws_request rid name data tmo st)) = client st \<and>
   fst (ws_request rid name data tmo st) = length (promises st)"
  by (simp add: ws_request_def Let_def)

lemma ws_request_connected:
  "connected st \<Longrightarrow>
   written (snd (ws_request rid name data tmo st)) =
     written st @ [(length (promises st),
       set_prop (set_prop (case data of None \<Rightarrow> [] | Some d \<Rightarrow> d) ''Name'' (Str name))
         ''RequestID'' (Str rid))] \<and>
   intervals (snd (ws_request rid name data tmo st)) = intervals st"
  by (simp add: ws_request_def Let_def)

lemma ws_request_queued:
  "\<not> connected st \<Longrightarrow>
   written (snd (ws_request rid name data tmo st)) = written st \<and>
   intervals (snd (ws_request rid name data tmo st)) =
     (intervals st)(length (promises st) \<mapsto>
       set_prop (set_prop (case data of None \<Rightarrow> [] | Some d \<Rightarrow> d) ''Name'' (Str name))
         ''RequestID'' (Str rid))"
  by (simp add: ws_request_def Let_def)

section \<open>The invariant holds in every run\<close>

lemma consistentI:
  assumes "\<And>p. timers st p \<noteq> None \<Longrightarrow> p < length (promises st) \<and> promises st ! p = Pending"
    and "\<And>p. p < length (promises st) \<Longrightarrow> promises st ! p = Pending \<Longrightarrow> timers st p \<noteq> None"
    and "\<And>k p. pool st k = Some p \<Longrightarrow> p < length (promises st)"
    and "\<And>k k' p. pool st k = Some p \<Longrightarrow> pool st k' = Some p \<Longrightarrow> k = k'"
    and "\<And>p. intervals st p \<noteq> None \<Longrightarrow> p < length (promises st)"
    and "\<And>e. e \<in> set (written st) \<Longrightarrow> fst e < length (promises st)"
  shows "consistent st"
  unfolding consistent_def using assms by blast

lemma consistent_armed:
  "consistent st \<Longrightarrow> timers st p \<noteq> None \<Longrightarrow> p < length (promises st) \<and> promises st ! p = Pending"
  unfolding consistent_def by blast

lemma consistent_pending:
  "consistent st \<Longrightarrow> p < length (promises st) \<Longrightarrow> promises st ! p = Pending \<Longrightarrow> timers st p \<noteq> None"
  unfolding consistent_def by blast

lemma consistent_entry: "consistent st \<Longrightarrow> pool st k = Some p \<Longrightarrow> p < length (promises st)"
  unfolding consistent_def by blast

lemma consistent_inj:
  "consistent st \<Longrightarrow> pool st k = Some p \<Longrightarrow> pool st k' = Some p \<Longrightarrow> k = k'"
  unfolding consistent_def by blast

lemma consistent_interval: "consistent st \<Longrightarrow> intervals st p \<noteq> None \<Longrightarrow> p < length (promises st)"
  unfolding consistent_def by blast

lemma consistent_written: "consistent st \<Longrightarrow> e \<in> set (written st) \<Longrightarrow> fst e < length (promises st)"
  unfolding consistent_def by blast

lemma consistent_init: "consistent (newUnixClient opts)"
  by (rule consistentI) (simp_all add: newUnixClient_def rec_def)

lemma consistent_ws_init: "consistent (newClient opts)"
  by (rule consistentI) (simp_all add: newClient_def rec_def)

text \<open>Registering a fresh promise with its timer and its pool entry.\<close>

lemma consistent_register:
  assumes c: "consistent st"
    and w: "\<And>e. e \<in> set w \<Longrightarrow> fst e \<le> length (promises st)"
    and iv: "\<And>p. iv p \<noteq> None \<Longrightarrow> p \<le> length (promises st)"
  shows "consistent (st\<lparr>written := w, promises := promises st @ [Pending],
            timers := (timers st)(length (promises st) \<mapsto> d),
            pool := (pool st)(rid \<mapsto> length (promises st)),
            intervals := iv\<rparr>)"
proof (rule consistentI)
  let ?n = "length (promises st)"
  let ?st = "st\<lparr>written := w, promises := promises st @ [Pending],
            timers := (timers st)(?n \<mapsto> d), pool := (pool st)(rid \<mapsto> ?n), intervals := iv\<rparr>"
  show "p < length (promises ?st) \<and> promises ?st ! p = Pending" if "timers ?st p \<noteq> None" for p
  proof (cases "p = ?n")
    case True
    then show ?thesis by simp
  next
    case False
    with that have "timers st p \<noteq> None" by simp
    from consistent_armed [OF c this] show ?thesis by (simp add: nth_append)
  qed
  show "timers ?st p \<noteq> None" if "p < length (promises ?st)" "promises ?st ! p = Pending" for p
  proof (cases "p = ?n")
    case True
    then show ?thesis by simp
  next
    case False
    with that have "p < ?n" "promises st ! p = Pending" by (simp_all add: nth_append)
    from consistent_pending [OF c this] False show ?thesis by simp
  qed
  show "p < length (promises ?st)" if "pool ?st k = Some p" for k p
  proof (cases "k = rid")
    case True
    with that show ?thesis by simp
  next
    case False
    with that have "pool st k = Some p" by simp
    from consistent_entry [OF c this] show ?thesis by simp
  qed
  show "k = k'" if "pool ?st k = Some p" "pool ?st k' = Some p" for k k' p
  proof -
    have fresh: "\<And>j. pool st j \<noteq> Some ?n"
      using consistent_entry [OF c] by fastforce
    show ?thesis
    proof (cases "p = ?n")
      case True
      with that fresh show ?thesis by (simp split: if_splits)
    next
      case False
      with that have "pool st k = Some p" "pool st k' = Some p" by (simp_all split: if_splits)
      then show ?thesis by (rule consistent_inj [OF c])
    qed
  qed
  show "p < length (promises ?st)" if "intervals ?st p \<noteq> None" for p
    using iv [of p] that by simp
  show "fst e < length (promises ?st)" if "e \<in> set (written ?st)" for e
    using w [of e] that by simp
qed

text \<open>Settling a promise and disarming its timer, entries and intervals only removed.\<close>

lemma consistent_complete:
  assumes c: "consistent st" and v: "v \<noteq> Pending"
    and pl: "\<And>k q. pl k = Some q \<Longrightarrow> pool st k = Some q"
    and iv: "\<And>q. iv q \<noteq> None \<Longrightarrow> intervals st q \<noteq> None"
  shows "consistent (st\<lparr>timers := (timers st)(p := None), promises := settle p v (promises st),
            pool := pl, intervals := iv\<rparr>)"
proof (rule consistentI)
  let ?st = "st\<lparr>timers := (timers st)(p := None), promises := settle p v (promises st),
            pool := pl, intervals := iv\<rparr>"
  show "q < length (promises ?st) \<and> promises ?st ! q = Pending" if "timers ?st q \<noteq> None" for q
  proof -
    from that have q: "q \<noteq> p" "timers st q \<noteq> None" by (simp_all split: if_splits)
    from consistent_armed [OF c q(2)] q(1) show ?thesis
      by (simp add: settle_length settle_other)
  qed
  show "timers ?st q \<noteq> None" if "q < length (promises ?st)" "promises ?st ! q = Pending" for q
  proof -
    from that have l: "q < length (promises st)" and s: "settle p v (promises st) ! q = Pending"
      by (simp_all add: settle_length)
    have "q \<noteq> p"
    proof
      assume "q = p"
      with l s v show False by (auto simp add: settle_def split: if_splits)
    qed
    moreover from this s have "promises st ! q = Pending" by (simp add: settle_other)
    ultimately show ?thesis using consistent_pending [OF c l] by simp
  qed
  show "q < length (promises ?st)" if "pool ?st k = Some q" for k q
    using that consistent_entry [OF c pl, of k q] by (simp add: settle_length)
  show "k = k'" if "pool ?st k = Some q" "pool ?st k' = Some q" for k k' q
    using that consistent_inj [OF c pl pl, of k q k'] by simp
  show "q < length (promises ?st)" if "intervals ?st q \<noteq> None" for q
    using that consistent_interval [OF c iv, of q] by (simp add: settle_length)
  show "fst e < length (promises ?st)" if "e \<in> set (written ?st)" for e
    using that consistent_written [OF c, of e] by (simp add: settle_length)
qed

lemma consistent_request: "consistent st \<Longrightarrow> consistent (snd (request rid data tmo st))"
proof -
  assume c: "consistent st"
  show ?thesis
  proof (cases "client st \<noteq> None")
    case True
    have "consistent (st\<lparr>written := written st @ [(length (promises st), set_prop data ''requester'' (Str rid))],
            promises := promises st @ [Pending],
            timers := (timers st)(length (promises st) \<mapsto> delay_of tmo (timeout st)),
            pool := (pool st)(rid \<mapsto> length (promises st)),
            intervals := intervals st\<rparr>)"
      using consistent_written [OF c] consistent_interval [OF c]
      by (intro consistent_register [OF c]) (auto simp add: less_imp_le)
    with True show ?thesis by (simp add: request_def Let_def)
  next
    case False
    have "consistent (st\<lparr>promises := promises st @ [Rejected ''Client not connected'']\<rparr>)"
    proof (rule consistentI)
      let ?st = "st\<lparr>promises := promises st @ [Rejected ''Client not connected'']\<rparr>"
      show "p < length (promises ?st) \<and> promises ?st ! p = Pending" if "timers ?st p \<noteq> None" for p
        using that consistent_armed [OF c, of p] by (simp add: nth_append)
      show "timers ?st p \<noteq> None" if "p < length (promises ?st)" "promises ?st ! p = Pending" for p
        using that consistent_pending [OF c, of p]
        by (cases "p = length (promises st)") (simp_all add: nth_append)
      show "p < length (promises ?st)" if "pool ?st k = Some p" for k p
        using that consistent_entry [OF c, of k p] by simp
      show "k = k'" if "pool ?st k = Some p" "pool ?st k' = Some p" for k k' p
        using that consistent_inj [OF c, of k p k'] by simp
      show "p < length (promises ?st)" if "intervals ?st p \<noteq> None" for p
        using that consistent_interval [OF c, of p] by simp
      show "fst e < length (promises ?st)" if "e \<in> set (written ?st)" for e
        using that consistent_written [OF c, of e] by simp
    qed
    with False show ?thesis by (simp add: request_def Let_def)
  qed
qed

lemma consistent_cong:
  "promises a = promises b \<Longrightarrow> timers a = timers b \<Longrightarrow> pool a = pool b \<Longrightarrow>
   intervals a = intervals b \<Longrightarrow> written a = written b \<Longrightarrow> consistent a = consistent b"
  by (simp add: consistent_def)


lemma consistent_ws_request:
  assumes c: "consistent st"
  shows "consistent (snd (ws_request rid name data tmo st))"
proof -
  let ?n = "length (promises st)"
  let ?d = "set_prop (set_prop (case data of None \<Rightarrow> [] | Some d \<Rightarrow> d) ''Name'' (Str name))
              ''RequestID'' (Str rid)"
  show ?thesis
  proof (cases "connected st")
    case True
    have "consistent (st\<lparr>written := written st @ [(?n, ?d)],
            promises := promises st @ [Pending],
            timers := (timers st)(?n \<mapsto> delay_of tmo (timeout st)),
            pool := (pool st)(rid \<mapsto> ?n), intervals := intervals st\<rparr>)"
      using consistent_written [OF c] consistent_interval [OF c]
      by (intro consistent_register [OF c]) (auto simp add: less_imp_le)
    moreover have "consistent (snd (ws_request rid name data tmo st)) =
        consistent (st\<lparr>written := written st @ [(?n, ?d)],
            promises := promises st @ [Pending],
            timers := (timers st)(?n \<mapsto> delay_of tmo (timeout st)),
            pool := (pool st)(rid \<mapsto> ?n), intervals := intervals st\<rparr>)"
      using True by (intro consistent_cong) (simp_all add: ws_request_def Let_def)
    ultimately show ?thesis by simp
  next
    case False
    have "consistent (st\<lparr>written := written st,
            promises := promises st @ [Pending],
            timers := (timers st)(?n \<mapsto> delay_of tmo (timeout st)),
            pool := (pool st)(rid \<mapsto> ?n), intervals := (intervals st)(?n \<mapsto> ?d)\<rparr>)"
      using consistent_written [OF c] consistent_interval [OF c]
      by (intro consistent_register [OF c]) (auto simp add: less_imp_le split: if_splits)
    moreover have "consistent (snd (ws_request rid name data tmo st)) =
        consistent (st\<lparr>written := written st,
            promises := promises st @ [Pending],
            timers := (timers st)(?n \<mapsto> delay_of tmo (timeout st)),
            pool := (pool st)(rid \<mapsto> ?n), intervals := (intervals st)(?n \<mapsto> ?d)\<rparr>)"
      using False by (intro consistent_cong) (simp_all add: ws_request_def Let_def)
    ultimately show ?thesis by simp
  qed
qed

lemma consistent_callback:
  assumes c: "consistent st"
  shows "consistent ((callback p d st)\<lparr>pool := (pool st)(k := None)\<rparr>)"
proof -
  have "consistent (st\<lparr>timers := (timers st)(p := None),
          promises := settle p (Fulfilled d) (promises st),
          pool := (pool st)(k := None), intervals := intervals st\<rparr>)"
    by (intro consistent_complete [OF c]) (auto split: if_splits)
  then show ?thesis by (simp add: callback_def)
qed

lemma consistent_respond: "consistent st \<Longrightarrow> consistent (respond r d st)"
  by (simp add: respond_unfold consistent_callback split: option.splits)

lemma consistent_fire_timeout:
  assumes c: "consistent st"
  shows "consistent (fire_timeout p st)"
proof (cases "timers st p")
  case None
  with c show ?thesis by (simp add: fire_timeout_def)
next
  case (Some t)
  have "consistent (st\<lparr>timers := (timers st)(p := None),
          promises := settle p (Rejected ''Request timed out'') (promises st),
          pool := pool st, intervals := intervals st\<rparr>)"
    by (intro consistent_complete [OF c]) auto
  with Some show ?thesis by (simp add: fire_timeout_def)
qed

lemma consistent_ws_fire_timeout:
  assumes c: "consistent st"
  shows "consistent (ws_fire_timeout p st)"
proof (cases "timers st p")
  case None
  with c show ?thesis by (simp add: ws_fire_timeout_def)
next
  case (Some t)
  have "consistent (st\<lparr>timers := (timers st)(p := None),
          promises := settle p (Rejected ''Request timed out'') (promises st),
          pool := pool st, intervals := (intervals st)(p := None)\<rparr>)"
    by (intro consistent_complete [OF c]) (auto split: if_splits)
  moreover have "consistent (ws_fire_timeout p st) =
      consistent (st\<lparr>timers := (timers st)(p := None),
          promises := settle p (Rejected ''Request timed out'') (promises st),
          pool := pool st, intervals := (intervals st)(p := None)\<rparr>)"
    using Some by (intro consistent_cong) (simp_all add: ws_fire_timeout_def)
  ultimately show ?thesis by simp
qed

lemma consistent_ws_retry:
  assumes c: "consistent st"
  shows "consistent (ws_retry p st)"
proof (cases "intervals st p")
  case None
  with c show ?thesis by (simp add: ws_retry_def)
next
  case (Some d)
  show ?thesis
  proof (cases "connected st")
    case False
    with Some c show ?thesis by (simp add: ws_retry_def)
  next
    case True
    have p: "p < length (promises st)"
      using consistent_interval [OF c, of p] Some by simp
    have "consistent (st\<lparr>written := written st @ [(p, d)], intervals := (intervals st)(p := None)\<rparr>)"
    proof (rule consistentI)
      let ?st = "st\<lparr>written := written st @ [(p, d)], intervals := (intervals st)(p := None)\<rparr>"
      show "q < length (promises ?st) \<and> promises ?st ! q = Pending" if "timers ?st q \<noteq> None" for q
        using that consistent_armed [OF c, of q] by simp
      show "timers ?st q \<noteq> None" if "q < length (promises ?st)" "promises ?st ! q = Pending" for q
        using that consistent_pending [OF c, of q] by simp
      show "q < length (promises ?st)" if "pool ?st k = Some q" for k q
        using that consistent_entry [OF c, of k q] by simp
      show "k = k'" if "pool ?st k = Some q" "pool ?st k' = Some q" for k k' q
        using that consistent_inj [OF c, of k q k'] by simp
      show "q < length (promises ?st)" if "intervals ?st q \<noteq> None" for q
        using that consistent_interval [OF c, of q] by (simp split: if_splits)
      show "fst e < length (promises ?st)" if "e \<in> set (written ?st)" for e
        using that consistent_written [OF c, of e] p by auto
    qed
    with Some True show ?thesis by (simp add: ws_retry_def)
  qed
qed

lemma consistent_calls: "consistent (st\<lparr>calls := cs\<rparr>) = consistent st"
  by (rule consistent_cong) simp_all

lemma consistent_listeners: "consistent (st\<lparr>event_listeners := ls\<rparr>) = consistent st"
  by (rule consistent_cong) simp_all

lemma consistent_buffer: "consistent (st\<lparr>collected_string := c\<rparr>) = consistent st"
  by (rule consistent_cong) simp_all

lemma consistent_client: "consistent (st\<lparr>client := c\<rparr>) = consistent st"
  by (rule consistent_cong) simp_all

lemma consistent_handle_segment: "consistent st \<Longrightarrow> consistent (handle_segment parse json st)"
  by (simp add: handle_segment_def try_segment_def consistent_respond consistent_calls
      split: option.splits sum.splits prod.splits)


lemma consistent_for_each:
  assumes "\<And>x s. consistent s \<Longrightarrow> consistent (f x s)"
  shows "consistent st \<Longrightarrow> consistent (for_each f xs st)"
  by (induction xs arbitrary: st) (simp_all add: assms)

lemma consistent_on_data: "consistent st \<Longrightarrow> consistent (on_data parse data st)"
  by (simp add: on_data_def Let_def consistent_buffer consistent_for_each consistent_handle_segment)


lemma consistent_ws_on_message: "consistent st \<Longrightarrow> consistent (ws_on_message parse data st)"
  by (simp add: ws_on_message_def ws_try_message_def consistent_respond
      split: option.splits sum.splits prod.splits)

lemma consistent_rec: "consistent (rec st) = consistent st"
  by (rule consistent_cong) (simp_all add: rec_def)

lemma consistent_tick: "consistent st \<Longrightarrow> consistent (tick st)"
  by (simp add: tick_def consistent_rec)

lemma consistent_step: "consistent st \<Longrightarrow> consistent (step parse st ev)"
  by (cases ev)
    (simp_all add: consistent_request consistent_on_data consistent_fire_timeout on_connect_def
      on_error_def on_close_def consistent_client consistent_tick add_event_listener_def
      consistent_listeners protocol_destroy_def split: option.splits)

lemma consistent_run: "consistent st \<Longrightarrow> consistent (run parse evs st)"
  unfolding run_def by (induction evs arbitrary: st) (simp_all add: consistent_step)

lemma consistent_ws_step: "consistent st \<Longrightarrow> consistent (ws_step parse st ev)"
  by (cases ev)
    (simp_all add: consistent_ws_request consistent_ws_on_message consistent_ws_fire_timeout
      consistent_ws_retry ws_on_open_def on_error_def on_close_def consistent_client consistent_tick)

lemma consistent_ws_run: "consistent st \<Longrightarrow> consistent (ws_run parse evs st)"
  unfolding ws_run_def by (induction evs arbitrary: st) (simp_all add: consistent_ws_step)



lemma consistent_reachable: "consistent (run parse evs (newUnixClient opts))"
  by (simp add: consistent_run consistent_init)

section \<open>Settled and displaced promises\<close>

text \<open>A settled promise stays as it is.\<close>

lemma kept_calls: "kept p x (st\<lparr>calls := cs\<rparr>) = kept p x st"
  by (simp add: kept_def)

lemma kept_respond: "x \<noteq> Pending \<Longrightarrow> kept p x st \<Longrightarrow> kept p x (respond r d st)"
  by (auto simp add: kept_def respond_promises settle_length settle_settled split: option.splits)

lemma kept_handle_segment: "x \<noteq> Pending \<Longrightarrow> kept p x st \<Longrightarrow> kept p x (handle_segment parse json st)"
  by (simp add: handle_segment_def try_segment_def kept_respond kept_calls
      split: option.splits sum.splits prod.splits)

lemma kept_buffer: "kept p x (st\<lparr>collected_string := c\<rparr>) = kept p x st"
  by (simp add: kept_def)

lemma kept_on_data: "x \<noteq> Pending \<Longrightarrow> kept p x st \<Longrightarrow> kept p x (on_data parse data st)"
  by (simp add: on_data_def Let_def kept_buffer for_each_inv [where P = "kept p x"] kept_handle_segment)

lemma kept_request: "kept p x st \<Longrightarrow> kept p x (snd (request rid data tmo st))"
  by (simp add: kept_def request_def Let_def nth_append)

lemma kept_fire_timeout: "x \<noteq> Pending \<Longrightarrow> kept p x st \<Longrightarrow> kept p x (fire_timeout q st)"
  by (simp add: kept_def fire_timeout_def settle_length settle_settled split: option.splits)

lemma kept_step: "x \<noteq> Pending \<Longrightarrow> kept p x st \<Longrightarrow> kept p x (step parse st ev)"
proof (cases ev)
  case (Connect rid)
  assume "kept p x st"
  then have "kept p x (st\<lparr>client := map_option (\<lambda>c. c\<lparr>readyState := Open\<rparr>) (client st)\<rparr>)"
    by (simp add: kept_def)
  then show ?thesis using Connect by (simp add: on_connect_def kept_request)
qed (simp_all add: kept_request kept_on_data kept_fire_timeout,
     simp_all add: kept_def on_error_def on_close_def tick_def rec_def add_event_listener_def
       protocol_destroy_def split: option.splits)

lemma kept_run: "x \<noteq> Pending \<Longrightarrow> kept p x st \<Longrightarrow> kept p x (run parse evs st)"
  unfolding run_def by (induction evs arbitrary: st) (simp_all add: kept_step)

lemma step_completes:
  assumes "p < length (promises st)" and "promises st ! p = Pending"
    and "promises (step parse st ev) ! p \<noteq> Pending"
  shows "(\<exists>c. ev = Data c) \<or> ev = Timeout p"
proof (cases ev)
  case (Timeout q)
  with assms show ?thesis
    by (cases "q = p") (simp_all add: fire_timeout_def settle_other split: option.splits)
qed (use assms in \<open>simp_all add: request_def on_connect_def Let_def nth_append on_error_def
      on_close_def tick_def rec_def add_event_listener_def protocol_destroy_def
      split: option.splits if_splits\<close>)

lemma orphan_respond: "orphan p st \<Longrightarrow> orphan p (respond r d st)"
proof -
  assume o: "orphan p st"
  show ?thesis
  proof (cases "pool st (to_key r)")
    case None
    with o show ?thesis by (simp add: respond_stale)
  next
    case (Some q)
    with o have "q \<noteq> p" by (auto simp add: orphan_def)
    with o Some show ?thesis
      by (simp add: orphan_def respond_unfold callback_def settle_length settle_other)
  qed
qed

lemma orphan_calls: "orphan p (st\<lparr>calls := cs\<rparr>) = orphan p st"
  by (simp add: orphan_def)

lemma orphan_buffer: "orphan p (st\<lparr>collected_string := c\<rparr>) = orphan p st"
  by (simp add: orphan_def)

lemma orphan_handle_segment: "orphan p st \<Longrightarrow> orphan p (handle_segment parse json st)"
  by (simp add: handle_segment_def try_segment_def orphan_respond orphan_calls
      split: option.splits sum.splits prod.splits)

lemma orphan_on_data: "orphan p st \<Longrightarrow> orphan p (on_data parse data st)"
  by (simp add: on_data_def Let_def orphan_buffer for_each_inv [where P = "orphan p"]
      orphan_handle_segment)

lemma orphan_request: "orphan p st \<Longrightarrow> orphan p (snd (request rid data tmo st))"
  by (auto simp add: orphan_def request_def Let_def nth_append)

lemma orphan_fire_timeout: "orphan p st \<Longrightarrow> orphan p (fire_timeout q st)"
proof -
  assume o: "orphan p st"
  show ?thesis
  proof (cases "timers st q")
    case None
    with o show ?thesis by (simp add: fire_timeout_def)
  next
    case (Some t)
    have "settle q (Rejected ''Request timed out'') (promises st) ! p = promises st ! p \<or>
          settle q (Rejected ''Request timed out'') (promises st) ! p = Rejected ''Request timed out''"
      using settle_cases [of q "Rejected ''Request timed out''" "promises st" p] by blast
    with o Some show ?thesis
      by (auto simp add: orphan_def fire_timeout_def settle_length)
  qed
qed

lemma orphan_step: "orphan p st \<Longrightarrow> orphan p (step parse st ev)"
proof (cases ev)
  case (Connect rid)
  assume "orphan p st"
  then have "orphan p (st\<lparr>client := map_option (\<lambda>c. c\<lparr>readyState := Open\<rparr>) (client st)\<rparr>)"
    by (simp add: orphan_def)
  then show ?thesis using Connect by (simp add: on_connect_def orphan_request)
qed (simp_all add: orphan_request orphan_on_data orphan_fire_timeout,
     simp_all add: orphan_def on_error_def on_close_def tick_def rec_def add_event_listener_def
       protocol_destroy_def split: option.splits)

lemma orphan_run: "orphan p st \<Longrightarrow> orphan p (run parse evs st)"
  unfolding run_def by (induction evs arbitrary: st) (simp_all add: orphan_step)

section \<open>The send state of a queued request\<close>

lemma queued_ws_request:
  assumes "queued p doc st"
  shows "queued p doc (snd (ws_request rid name data tmo st))"
proof (cases "connected st")
  case True
  with assms show ?thesis
    by (simp add: queued_def ws_request_fields ws_request_connected)
next
  case False
  with assms show ?thesis
    by (simp add: queued_def ws_request_fields ws_request_queued)
qed

lemma queued_ws_retry:
  assumes "queued p doc st"
  shows "queued p doc (ws_retry q st)"
proof (cases "intervals st q")
  case None
  with assms show ?thesis by (simp add: ws_retry_def)
next
  case (Some d)
  show ?thesis
  proof (cases "connected st")
    case False
    with Some assms show ?thesis by (simp add: ws_retry_def)
  next
    case True
    show ?thesis
    proof (cases "q = p")
      case True
      with Some assms \<open>connected st\<close> show ?thesis by (simp add: queued_def ws_retry_def)
    next
      case False
      with Some assms \<open>connected st\<close> show ?thesis by (simp add: queued_def ws_retry_def)
    qed
  qed
qed

lemma queued_ws_fire_timeout:
  assumes "queued p doc st"
  shows "queued p doc (ws_fire_timeout q st)"
proof (cases "timers st q")
  case None
  with assms show ?thesis by (simp add: ws_fire_timeout_def)
next
  case (Some t)
  with assms show ?thesis
    by (cases "q = p") (simp_all add: queued_def ws_fire_timeout_def settle_length split: if_splits)
qed

lemma queued_ws_on_message: "queued p doc st \<Longrightarrow> queued p doc (ws_on_message parse data st)"
  by (simp add: queued_def ws_on_message_fields)

lemma queued_ws_step: "queued p doc st \<Longrightarrow> queued p doc (ws_step parse st ev)"
  by (cases ev)
    (simp_all add: queued_ws_request queued_ws_retry queued_ws_fire_timeout queued_ws_on_message,
     simp_all add: queued_def ws_on_open_def on_error_def on_close_def tick_def rec_def)

lemma queued_ws_run: "queued p doc st \<Longrightarrow> queued p doc (ws_run parse evs st)"
  unfolding ws_run_def by (induction evs arbitrary: st) (simp_all add: queued_ws_step)

lemma cleared_ws_step: "cleared p w st \<Longrightarrow> cleared p w (ws_step parse st ev)"
proof (cases ev)
  case (WsRequest rid name data tmo)
  assume "cleared p w st"
  then show ?thesis using WsRequest
    by (cases "connected st")
      (simp_all add: cleared_def ws_request_fields ws_request_connected ws_request_queued)
next
  case (WsRetry q)
  assume "cleared p w st"
  then show ?thesis using WsRetry
    by (cases "q = p") (auto simp add: cleared_def ws_retry_def split: option.splits)
next
  case (WsTimeout q)
  assume "cleared p w st"
  then show ?thesis using WsTimeout
    by (auto simp add: cleared_def ws_fire_timeout_def settle_length split: option.splits)
qed (simp_all add: cleared_def ws_on_message_fields ws_on_open_def on_error_def on_close_def
      tick_def rec_def)

lemma cleared_ws_run: "cleared p w st \<Longrightarrow> cleared p w (ws_run parse evs st)"
  unfolding ws_run_def by (induction evs arbitrary: st) (simp_all add: cleared_ws_step)

section \<open>Responses that find no pending request\<close>











section \<open>Frames split across chunks\<close>

text \<open>
  C1. Two requests \<open>a\<close> and \<open>b\<close> are pending and the daemon answers both, each answer a
  frame ended by the sentinel. Delivered as one chunk, both answers are decoded and both
  requests are fulfilled. Delivered as two chunks whose boundary falls inside the second
  document, the first chunk holds a sentinel, so the handler runs over every segment,
  the unfinished tail included, and then empties the buffer: the tail is lost, the
  second chunk alone does not parse, and request \<open>b\<close> stays pending with its entry in
  the pool.
\<close>

theorem split_frame_is_lost:
  \<open>promises two_pending = [Pending, Pending] \<and>
   promises (on_data json_parse (frame_a @ [EOT] @ frame_b @ [EOT]) two_pending) =
     [Fulfilled (Num 1), Fulfilled (Num 2)] \<and>
   frame_b = ''{"requester":"b",'' @ ''"data":2}'' \<and>
   collected_string
     (on_data json_parse (frame_a @ [EOT] @ ''{"requester":"b",'') two_pending) = [] \<and>
   promises
     (on_data json_parse (''"data":2}'' @ [EOT])
       (on_data json_parse (frame_a @ [EOT] @ ''{"requester":"b",'') two_pending)) =
     [Fulfilled (Num 1), Pending] \<and>
   pool
     (on_data json_parse (''"data":2}'' @ [EOT])
       (on_data json_parse (frame_a @ [EOT] @ ''{"requester":"b",'') two_pending)) ''b'' =
     Some 1\<close>
  by code_simp

section \<open>Completion of a request\<close>

text \<open>
  C2. A request registered in the pool of a Unix client, in any state a run reaches: its
  promise \<open>p\<close> is pending and its entry stands under the key of \<open>r\<close>. A response
  frame for that key fulfils the promise, and whatever happens afterwards, the timeout
  included, leaves it fulfilled; the timeout next after the response changes nothing at
  all. The timeout rejects the promise, and whatever happens afterwards, a late response
  included, leaves it rejected. No event but a chunk of data or this timeout takes the
  promise out of the pending state.
\<close>

theorem exactly_one_completion:
  assumes reach: "st = run parse evs (newUnixClient opts)"
    and entry: "pool st (to_key r) = Some p" and pending: "promises st ! p = Pending"
    and frame: "parse json = Some obj" "json \<noteq> []" "EOT \<notin> set json" "collected_string st = []"
    and resp: "get_prop obj ''ty'' \<noteq> Inr (Str ''event'')" "get_prop obj ''requester'' = Inr r"
      "get_prop obj ''data'' = Inr v"
  shows "timers st p \<noteq> None \<and>
         (\<forall>evs'. promises (run parse (Data (json @ [EOT]) # evs') st) ! p = Fulfilled v) \<and>
         (\<forall>evs'. promises (run parse (Timeout p # evs') st) ! p = Rejected ''Request timed out'') \<and>
         run parse [Data (json @ [EOT]), Timeout p] st = run parse [Data (json @ [EOT])] st \<and>
         (\<forall>ev. promises (step parse st ev) ! p \<noteq> Pending \<longrightarrow> (\<exists>c. ev = Data c) \<or> ev = Timeout p)"
proof -
  have c: "consistent st"
    unfolding reach by (rule consistent_reachable)
  have len: "p < length (promises st)"
    using c entry by (rule consistent_entry)
  have armed: "timers st p \<noteq> None"
    using c len pending by (rule consistent_pending)
  then obtain t where t: "timers st p = Some t" by blast
  have data: "step parse st (Data (json @ [EOT])) = respond r v st"
    using frame resp by (simp add: on_data_single handle_segment_response)
  have "kept p (Fulfilled v) (respond r v st)"
    using entry len pending
    by (simp add: kept_def respond_promises settle_length settle_pending)
  then have 1: "\<And>evs'. promises (run parse (Data (json @ [EOT]) # evs') st) ! p = Fulfilled v"
    using kept_run [of "Fulfilled v" p "respond r v st" parse] data
    by (simp add: run_Cons kept_def)
  have "kept p (Rejected ''Request timed out'') (fire_timeout p st)"
    using t len pending by (simp add: kept_def fire_timeout_def settle_length settle_pending)
  then have 2: "\<And>evs'. promises (run parse (Timeout p # evs') st) ! p = Rejected ''Request timed out''"
    using kept_run [of "Rejected ''Request timed out''" p "fire_timeout p st" parse]
    by (simp add: run_Cons kept_def)
  have "timers (respond r v st) p = None"
    using entry by (simp add: respond_timers)
  then have "fire_timeout p (respond r v st) = respond r v st"
    by (simp add: fire_timeout_def)
  then have 3: "run parse [Data (json @ [EOT]), Timeout p] st = run parse [Data (json @ [EOT])] st"
    using data by (simp add: run_Cons run_Nil)
  have 4: "\<And>ev. promises (step parse st ev) ! p \<noteq> Pending \<Longrightarrow> (\<exists>c. ev = Data c) \<or> ev = Timeout p"
    using len pending by (rule step_completes)
  from armed 1 2 3 4 show ?thesis by blast
qed

theorem exactly_one_completion_witness:
  "abc_pending = run json_parse [Request ''abc'' [] (Some 50)] (newUnixClient None) \<and>
   pool abc_pending ''abc'' = Some 0 \<and> promises abc_pending ! 0 = Pending \<and>
   json_parse abc_frame = Some (Obj [(''requester'', Str ''abc''), (''data'', Num 7)]) \<and>
   promises (run json_parse [Data (abc_frame @ [EOT]), Timeout 0] abc_pending) ! 0 = Fulfilled (Num 7) \<and>
   promises (run json_parse [Timeout 0, Data (abc_frame @ [EOT])] abc_pending) ! 0 =
     Rejected ''Request timed out'' \<and>
   run json_parse [Data (abc_frame @ [EOT]), Timeout 0] abc_pending =
     run json_parse [Data (abc_frame @ [EOT])] abc_pending"
proof -
  let ?obj = "Obj [(''requester'', Str ''abc''), (''data'', Num 7)]"
  have r: "abc_pending = run json_parse [Request ''abc'' [] (Some 50)] (newUnixClient None)"
    by (rule abc_pending_def)
  have e: "pool abc_pending (to_key (Str ''abc'')) = Some 0" by code_simp
  have p: "promises abc_pending ! 0 = Pending" by code_simp
  have f: "json_parse abc_frame = Some ?obj" by code_simp
  have n: "abc_frame \<noteq> []" by code_simp
  have s: "EOT \<notin> set abc_frame" by code_simp
  have b: "collected_string abc_pending = []" by code_simp
  have g: "get_prop ?obj ''ty'' \<noteq> Inr (Str ''event'')" "get_prop ?obj ''requester'' = Inr (Str ''abc'')"
    "get_prop ?obj ''data'' = Inr (Num 7)" by simp_all
  note t = exactly_one_completion [where parse = json_parse and json = abc_frame and st = abc_pending
      and r = "Str ''abc''" and p = 0 and v = "Num 7", OF r e p f n s b g]
  from t have 1: "promises (run json_parse (Data (abc_frame @ [EOT]) # [Timeout 0]) abc_pending) ! 0 =
      Fulfilled (Num 7)" by blast
  from t have 2: "promises (run json_parse (Timeout 0 # [Data (abc_frame @ [EOT])]) abc_pending) ! 0 =
      Rejected ''Request timed out''" by blast
  from t have 3: "run json_parse [Data (abc_frame @ [EOT]), Timeout 0] abc_pending =
     run json_parse [Data (abc_frame @ [EOT])] abc_pending" by blast
  from r e p f 1 2 3 show ?thesis by simp
qed

section \<open>Expiry of a request\<close>

text \<open>
  C3. The spec's scenario 7: request \<open>abc\<close> is pending with a timeout of 50 ms, its
  entry in the pool and its timer armed, and the timer fires. The promise is rejected
  with the timeout failure, as the claim says, and the timer is gone; but the entry is
  not removed: it still stands in the pool and names the rejected promise. The older
  Unix client and the WebSocket client keep the entry in the same way.
\<close>

theorem timed_out_entry_remains:
  "pool abc_pending ''abc'' = Some 0 \<and> timers abc_pending 0 = Some 50 \<and>
   promises abc_pending = [Pending] \<and>
   promises (run json_parse [Timeout 0] abc_pending) = [Rejected ''Request timed out''] \<and>
   timers (run json_parse [Timeout 0] abc_pending) 0 = None \<and>
   pool (run json_parse [Timeout 0] abc_pending) ''abc'' = Some 0 \<and>
   promises (old_run json_parse [OldRequest ''abc'' [], OldTimeout 0] (newUnixClient None)) =
     [Rejected ''Request timed out''] \<and>
   pool (old_run json_parse [OldRequest ''abc'' [], OldTimeout 0] (newUnixClient None)) ''abc'' =
     Some 0 \<and>
   promises (ws_run json_parse [WsTimeout 0] ws_queued) = [Rejected ''Request timed out''] \<and>
   pool (ws_run json_parse [WsTimeout 0] ws_queued) ''r1'' = Some 0"
  by code_simp

text \<open>
  In general: in any state a run of the Unix client reaches, the timer of request \<open>p\<close>
  firing while armed rejects the promise with \<^verbatim>\<open>"Request timed out"\<close>, disarms the timer,
  touches no other promise and leaves the pool as it is. A response under the key of the
  entry, handled afterwards, deletes the entry and leaves the promise rejected. The
  WebSocket client's timer does the same and clears the retry interval.
\<close>

lemma timeout_rejects_and_keeps_entry:
  assumes "st = run parse evs (newUnixClient opts)" and "wst = ws_run parse wevs (newClient wopts)"
  shows "(timers st p \<noteq> None \<longrightarrow>
            promises (fire_timeout p st) ! p = Rejected ''Request timed out'' \<and>
            timers (fire_timeout p st) p = None \<and>
            pool (fire_timeout p st) = pool st \<and>
            (\<forall>q. q \<noteq> p \<longrightarrow> promises (fire_timeout p st) ! q = promises st ! q) \<and>
            (pool st (to_key r) = Some p \<longrightarrow>
               pool (respond r v (fire_timeout p st)) (to_key r) = None \<and>
               promises (respond r v (fire_timeout p st)) ! p = Rejected ''Request timed out'')) \<and>
         (timers wst p \<noteq> None \<longrightarrow>
            promises (ws_fire_timeout p wst) ! p = Rejected ''Request timed out'' \<and>
            timers (ws_fire_timeout p wst) p = None \<and>
            intervals (ws_fire_timeout p wst) p = None \<and>
            pool (ws_fire_timeout p wst) = pool wst)"
proof (intro conjI impI allI)
  assume a: "timers st p \<noteq> None"
  have c: "consistent st"
    unfolding assms(1) by (rule consistent_reachable)
  from consistent_armed [OF c a] have len: "p < length (promises st)" and pen: "promises st ! p = Pending"
    by simp_all
  from a obtain t where t: "timers st p = Some t" by blast
  show rej: "promises (fire_timeout p st) ! p = Rejected ''Request timed out''"
    using t len pen by (simp add: fire_timeout_def settle_pending)
  show "timers (fire_timeout p st) p = None"
    using t by (simp add: fire_timeout_def)
  show pl: "pool (fire_timeout p st) = pool st"
    using t by (simp add: fire_timeout_def)
  show "promises (fire_timeout p st) ! q = promises st ! q" if "q \<noteq> p" for q
    using t that by (simp add: fire_timeout_def settle_other)
  assume e: "pool st (to_key r) = Some p"
  show "pool (respond r v (fire_timeout p st)) (to_key r) = None"
    by (simp add: respond_unfold callback_def split: option.splits)
  show "promises (respond r v (fire_timeout p st)) ! p = Rejected ''Request timed out''"
    using rej by (simp add: respond_promises settle_settled split: option.splits)
next
  assume a: "timers wst p \<noteq> None"
  have c: "consistent wst"
    unfolding assms(2) by (simp add: consistent_ws_run consistent_ws_init)
  from consistent_armed [OF c a] have len: "p < length (promises wst)" and pen: "promises wst ! p = Pending"
    by simp_all
  from a obtain t where t: "timers wst p = Some t" by blast
  show "promises (ws_fire_timeout p wst) ! p = Rejected ''Request timed out''"
    using t len pen by (simp add: ws_fire_timeout_def settle_pending)
  show "timers (ws_fire_timeout p wst) p = None"
    using t by (simp add: ws_fire_timeout_def)
  show "intervals (ws_fire_timeout p wst) p = None"
    using t by (simp add: ws_fire_timeout_def)
  show "pool (ws_fire_timeout p wst) = pool wst"
    using t by (simp add: ws_fire_timeout_def)
qed

section \<open>After destroy\<close>

text \<open>
  C4 as stated fails. With request \<open>abc\<close> pending, \<^verbatim>\<open>destroy()\<close> is called, the connection
  closes and the supervisor's interval comes round: the client of \<^verbatim>\<open>src/index.js\<close> and
  the older client both open a second connection, and in both the request is still
  pending with its timer armed.
\<close>

theorem destroyed_client_reconnects:
  "promises (run json_parse [Destroy, SockClose, Tick] abc_pending) = [Pending] \<and>
   timers (run json_parse [Destroy, SockClose, Tick] abc_pending) 0 = Some 50 \<and>
   connections abc_pending = 1 \<and>
   connections (run json_parse [Destroy, SockClose, Tick] abc_pending) = 2 \<and>
   promises (old_run json_parse [OldRequest ''abc'' [], OldDestroy, OldClose, OldTick]
     (newUnixClient None)) = [Pending] \<and>
   connections (old_run json_parse [OldRequest ''abc'' [], OldDestroy, OldClose, OldTick]
     (newUnixClient None)) = 2"
  by code_simp

text \<open>
  C4, amended. \<^verbatim>\<open>destroy()\<close> neither stops the supervisor nor completes a request. In
  both Unix clients it leaves the promises, the timers, the pool and the
  \<open>reconnect\<close> flag as they were, so a request pending at that time stays pending
  until its response or its own timeout; and when the connection's \<^verbatim>\<open>'close'\<close> event has
  cleared the handle, the next turn of the supervisor's interval, on a client with
  \<open>reconnect\<close> set, opens a new connection.
\<close>

theorem destroy_stops_nothing:
  "promises (step parse st Destroy) = promises st \<and>
   timers (step parse st Destroy) = timers st \<and>
   pool (step parse st Destroy) = pool st \<and>
   reconnect (step parse st Destroy) = reconnect st \<and>
   promises (old_step parse st OldDestroy) = promises st \<and>
   timers (old_step parse st OldDestroy) = timers st \<and>
   pool (old_step parse st OldDestroy) = pool st \<and>
   reconnect (old_step parse st OldDestroy) = reconnect st \<and>
   (reconnect st \<longrightarrow>
      client (run parse [Destroy, SockClose, Tick] st) =
        Some \<lparr>handle = connections st, readyState = Opening\<rparr> \<and>
      connections (run parse [Destroy, SockClose, Tick] st) = Suc (connections st) \<and>
      client (old_run parse [OldDestroy, OldClose, OldTick] st) =
        Some \<lparr>handle = connections st, readyState = Opening\<rparr> \<and>
      connections (old_run parse [OldDestroy, OldClose, OldTick] st) = Suc (connections st))"
  by (simp add: protocol_destroy_def old_destroy_def run_def old_run_def on_close_def tick_def
      rec_def split: option.splits)

theorem destroy_stops_nothing_witness:
  "reconnect abc_pending \<and> promises abc_pending = [Pending] \<and>
   promises (step json_parse abc_pending Destroy) = [Pending] \<and>
   timers (step json_parse abc_pending Destroy) 0 = Some 50 \<and>
   connections (run json_parse [Destroy, SockClose, Tick] abc_pending) = 2 \<and>
   connections (old_run json_parse [OldDestroy, OldClose, OldTick] abc_pending) = 2"
proof -
  have r: "reconnect abc_pending" by code_simp
  have p: "promises abc_pending = [Pending]" by code_simp
  have t: "timers abc_pending 0 = Some 50" by code_simp
  have n: "connections abc_pending = 1" by code_simp
  from destroy_stops_nothing [of json_parse abc_pending] r p t n
  show ?thesis by simp
qed

section \<open>Malformed segments\<close>



section \<open>Stale responses\<close>



section \<open>Events and responses on the combined channel\<close>

text \<open>
  C7 as stated fails: with two listeners registered of which the first throws, the event
  document of the spec's scenario reaches the first listener only; the exception leaves
  the \<^verbatim>\<open>for\<close> loop and is swallowed by the \<^verbatim>\<open>catch\<close> of the segment.
\<close>

theorem event_listener_cut_off:
  "calls (on_data json_parse (event_frame @ [EOT]) two_listeners) = [(0, Obj [(''x'', Num 1)])] \<and>
   length (event_listeners two_listeners) = 2 \<and>
   (1, Obj [(''x'', Num 1)]) \<notin> set (calls (on_data json_parse (event_frame @ [EOT]) two_listeners))"
  by code_simp

text \<open>
  C7, amended. On the combined channel a decoded document whose \<^verbatim>\<open>ty\<close> is
  \<^verbatim>\<open>"event"\<close> is delivered to the registered listeners in registration order, up to and
  including the first one that throws (to every listener when none throws), and leaves
  the pool, the promises and the timers untouched: it is never treated as a response.
  Any other decoded document whose fields can be read is treated as a response: no
  listener is called, and what happens depends on the pool entry under the property key
  of its \<^verbatim>\<open>requester\<close> alone: that entry, if there is one, is called with the document's
  \<^verbatim>\<open>data\<close> and deleted.
\<close>

theorem event_routing:
  assumes "parse json = Some obj" and "json \<noteq> []"
  shows "(get_prop obj ''ty'' = Inr (Str ''event'') \<and> get_prop obj ''data'' = Inr d \<longrightarrow>
            handle_segment parse json st =
              st\<lparr>calls := calls st @ fst (call_listeners (event_listeners st) 0 d)\<rparr> \<and>
            fst (call_listeners (event_listeners st) 0 d) =
              map (\<lambda>j. (j, d))
                [0 ..< min (length (event_listeners st))
                           (Suc (length (takeWhile (\<lambda>l. l d) (event_listeners st))))] \<and>
            ((\<forall>l \<in> set (event_listeners st). l d) \<longrightarrow>
               fst (call_listeners (event_listeners st) 0 d) =
                 map (\<lambda>j. (j, d)) [0 ..< length (event_listeners st)]) \<and>
            pool (handle_segment parse json st) = pool st \<and>
            promises (handle_segment parse json st) = promises st \<and>
            timers (handle_segment parse json st) = timers st) \<and>
         (get_prop obj ''ty'' \<noteq> Inr (Str ''event'') \<and> get_prop obj ''requester'' = Inr r \<and>
          get_prop obj ''data'' = Inr d \<longrightarrow>
            handle_segment parse json st = respond r d st \<and>
            calls (handle_segment parse json st) = calls st \<and>
            respond r d st =
              (case pool st (to_key r) of
                 None \<Rightarrow> st
               | Some p \<Rightarrow> (callback p d st)\<lparr>pool := (pool st)(to_key r := None)\<rparr>))"
proof (intro conjI impI)
  assume h: "get_prop obj ''ty'' = Inr (Str ''event'') \<and> get_prop obj ''data'' = Inr d"
  with assms show e: "handle_segment parse json st =
      st\<lparr>calls := calls st @ fst (call_listeners (event_listeners st) 0 d)\<rparr>"
    by (simp add: handle_segment_def try_segment_def split: prod.splits)
  show "fst (call_listeners (event_listeners st) 0 d) =
      map (\<lambda>j. (j, d))
        [0 ..< min (length (event_listeners st))
                   (Suc (length (takeWhile (\<lambda>l. l d) (event_listeners st))))]"
    using call_listeners_prefix [of "event_listeners st" 0 d] by simp
  show "pool (handle_segment parse json st) = pool st" by (simp add: e)
  show "promises (handle_segment parse json st) = promises st" by (simp add: e)
  show "timers (handle_segment parse json st) = timers st" by (simp add: e)
  assume "\<forall>l \<in> set (event_listeners st). l d"
  then show "fst (call_listeners (event_listeners st) 0 d) =
      map (\<lambda>j. (j, d)) [0 ..< length (event_listeners st)]"
    using call_listeners_all [of "event_listeners st" d 0] by simp
next
  assume h: "get_prop obj ''ty'' \<noteq> Inr (Str ''event'') \<and> get_prop obj ''requester'' = Inr r \<and>
          get_prop obj ''data'' = Inr d"
  then obtain ty where ty: "get_prop obj ''ty'' = Inr ty" "ty \<noteq> Str ''event''"
    using get_prop_total [of obj "''data''" d "''ty''"] by auto
  with h assms show e: "handle_segment parse json st = respond r d st"
    by (simp add: handle_segment_def try_segment_def)
  show "calls (handle_segment parse json st) = calls st"
    by (simp add: e respond_fields)
  show "respond r d st =
      (case pool st (to_key r) of
         None \<Rightarrow> st
       | Some p \<Rightarrow> (callback p d st)\<lparr>pool := (pool st)(to_key r := None)\<rparr>)"
    by (rule respond_unfold)
qed

theorem event_routing_witness:
  "json_parse event_frame = Some (Obj [(''ty'', Str ''event''), (''data'', Obj [(''x'', Num 1)])]) \<and>
   event_frame \<noteq> [] \<and>
   handle_segment json_parse event_frame two_listeners =
     two_listeners\<lparr>calls := calls two_listeners @
        fst (call_listeners (event_listeners two_listeners) 0 (Obj [(''x'', Num 1)]))\<rparr> \<and>
   fst (call_listeners (event_listeners two_listeners) 0 (Obj [(''x'', Num 1)])) =
     [(0, Obj [(''x'', Num 1)])] \<and>
   json_parse frame_a = Some (Obj [(''requester'', Str ''a''), (''data'', Num 1)]) \<and>
   handle_segment json_parse frame_a two_pending = respond (Str ''a'') (Num 1) two_pending \<and>
   promises (respond (Str ''a'') (Num 1) two_pending) = [Fulfilled (Num 1), Pending]"
proof -
  let ?d = "Obj [(''x'', Num 1)]"
  let ?obj = "Obj [(''ty'', Str ''event''), (''data'', ?d)]"
  let ?robj = "Obj [(''requester'', Str ''a''), (''data'', Num 1)]"
  have p: "json_parse event_frame = Some ?obj" by code_simp
  have n: "event_frame \<noteq> []" by code_simp
  have g: "get_prop ?obj ''ty'' = Inr (Str ''event'') \<and> get_prop ?obj ''data'' = Inr ?d" by simp
  have c: "fst (call_listeners (event_listeners two_listeners) 0 ?d) = [(0, ?d)]" by code_simp
  have rp: "json_parse frame_a = Some ?robj" by code_simp
  have rn: "frame_a \<noteq> []" by code_simp
  have rg: "get_prop ?robj ''ty'' \<noteq> Inr (Str ''event'') \<and>
            get_prop ?robj ''requester'' = Inr (Str ''a'') \<and> get_prop ?robj ''data'' = Inr (Num 1)"
    by simp
  have v: "promises (respond (Str ''a'') (Num 1) two_pending) = [Fulfilled (Num 1), Pending]"
    by code_simp
  from event_routing
    [where parse = json_parse and json = event_frame and d = ?d and st = two_listeners, OF p n] g
  have 1: "handle_segment json_parse event_frame two_listeners =
     two_listeners\<lparr>calls := calls two_listeners @
        fst (call_listeners (event_listeners two_listeners) 0 ?d)\<rparr>" by blast
  from event_routing
    [where parse = json_parse and json = frame_a and d = "Num 1" and r = "Str ''a''"
       and st = two_pending, OF rp rn] rg
  have 2: "handle_segment json_parse frame_a two_pending = respond (Str ''a'') (Num 1) two_pending"
    by blast
  from 1 2 p n c rp v show ?thesis by simp
qed

section \<open>Requests issued while disconnected\<close>

text \<open>
  C8. A request is issued on a WebSocket client that is not connected, in any state a
  run reaches; \<open>p\<close> is its promise and \<open>doc\<close> its document. The request arms its
  interval with the document and its timer, and sends nothing. In every state \<open>s\<close>
  that any later run of events reaches: the document of \<open>p\<close> was sent at most once;
  while the interval is armed it still holds the document and nothing was sent; a turn
  of the interval while the connection is not open changes nothing, so the retrying
  goes on; a turn while it is open sends the document once and clears the interval; the
  request's timer, when it fires, clears the interval and sends nothing; and once the
  interval is cleared, by the send or by the timer, no run of events sends for \<open>p\<close>
  again.
\<close>

theorem queued_request_sent_once:
  assumes reach: "st = ws_run parse evs (newClient opts)" and down: "\<not> connected st"
    and doc: "doc = set_prop (set_prop (case data of None \<Rightarrow> [] | Some d \<Rightarrow> d) ''Name'' (Str name))
                      ''RequestID'' (Str rid)"
    and p: "p = length (promises st)"
    and later: "s = ws_run parse evs' (snd (ws_request rid name data tmo st))"
  shows "fst (ws_request rid name data tmo st) = p \<and>
         intervals (snd (ws_request rid name data tmo st)) p = Some doc \<and>
         timers (snd (ws_request rid name data tmo st)) p \<noteq> None \<and>
         sends p (snd (ws_request rid name data tmo st)) = 0 \<and>
         sends p s \<le> 1 \<and>
         (intervals s p \<noteq> None \<longrightarrow> intervals s p = Some doc \<and> sends p s = 0) \<and>
         (\<not> connected s \<longrightarrow> ws_retry p s = s) \<and>
         (connected s \<and> intervals s p \<noteq> None \<longrightarrow>
            written (ws_retry p s) = written s @ [(p, doc)] \<and>
            sends p (ws_retry p s) = 1 \<and> intervals (ws_retry p s) p = None) \<and>
         (timers s p \<noteq> None \<longrightarrow>
            intervals (ws_fire_timeout p s) p = None \<and>
            written (ws_fire_timeout p s) = written s) \<and>
         (intervals s p = None \<longrightarrow> (\<forall>evs''. sends p (ws_run parse evs'' s) = sends p s))"
proof -
  let ?st = "snd (ws_request rid name data tmo st)"
  have c: "consistent st"
    unfolding reach by (simp add: consistent_ws_run consistent_ws_init)
  have none: "filter (\<lambda>e. fst e = p) (written st) = []"
  proof -
    have "fst e \<noteq> p" if "e \<in> set (written st)" for e
      using consistent_written [OF c that] p by simp
    then show ?thesis by (simp add: filter_empty_conv)
  qed
  have 1: "fst (ws_request rid name data tmo st) = p"
    by (simp add: ws_request_fields p)
  have 2: "intervals ?st p = Some doc"
    using down by (simp add: ws_request_queued p doc)
  have 3: "timers ?st p \<noteq> None"
    by (simp add: ws_request_fields p)
  have w: "written ?st = written st"
    using down by (simp add: ws_request_queued)
  have 4: "sends p ?st = 0"
    by (simp add: sends_def w none)
  have "queued p doc ?st"
    using 2 none by (simp add: queued_def w ws_request_fields p)
  then have q: "queued p doc s"
    unfolding later by (rule queued_ws_run)
  have 5: "sends p s \<le> 1"
    using q by (auto simp add: queued_def sends_def split: if_splits)
  have 6: "intervals s p = Some doc \<and> sends p s = 0" if "intervals s p \<noteq> None"
    using q that by (simp add: queued_def sends_def)
  have 7: "ws_retry p s = s" if "\<not> connected s"
    using that by (simp add: ws_retry_def split: option.splits)
  have 8: "written (ws_retry p s) = written s @ [(p, doc)] \<and>
      sends p (ws_retry p s) = 1 \<and> intervals (ws_retry p s) p = None"
    if "connected s \<and> intervals s p \<noteq> None"
    using that 6 by (simp add: ws_retry_def sends_def)
  have 9: "intervals (ws_fire_timeout p s) p = None \<and> written (ws_fire_timeout p s) = written s"
    if "timers s p \<noteq> None"
    using that by (auto simp add: ws_fire_timeout_def)
  have 10: "sends p (ws_run parse evs'' s) = sends p s" if "intervals s p = None" for evs''
  proof -
    have "cleared p (filter (\<lambda>e. fst e = p) (written s)) s"
      using q that by (simp add: cleared_def queued_def)
    then have "cleared p (filter (\<lambda>e. fst e = p) (written s)) (ws_run parse evs'' s)"
      by (rule cleared_ws_run)
    then show ?thesis by (simp add: cleared_def sends_def)
  qed
  from 1 2 3 4 5 6 7 8 9 10 show ?thesis by blast
qed

theorem queued_request_sent_once_witness:
  "\<not> connected (newClient None) \<and>
   ws_queued = snd (ws_request ''r1'' ''List Connected Devices'' None None (newClient None)) \<and>
   intervals ws_queued 0 =
     Some [(''Name'', Str ''List Connected Devices''), (''RequestID'', Str ''r1'')] \<and>
   sends 0 ws_queued = 0 \<and>
   sends 0 (ws_run json_parse [WsRetry 0, WsOpen, WsRetry 0, WsRetry 0, WsTimeout 0] ws_queued) \<le> 1 \<and>
   written (ws_run json_parse [WsOpen, WsRetry 0, WsRetry 1, WsRetry 0, WsRetry 1] ws_two_queued) =
     [(0, [(''Name'', Str ''List Connected Devices''), (''RequestID'', Str ''r1'')]),
      (1, [(''Name'', Str ''List Discovered Devices''), (''RequestID'', Str ''r2'')])] \<and>
   written (ws_run json_parse [WsTimeout 0, WsOpen, WsRetry 0, WsRetry 1] ws_two_queued) =
     [(1, [(''Name'', Str ''List Discovered Devices''), (''RequestID'', Str ''r2'')])]"
proof -
  let ?doc = "[(''Name'', Str ''List Connected Devices''), (''RequestID'', Str ''r1'')]"
  have r: "newClient None = ws_run json_parse [] (newClient None)"
    by (simp add: ws_run_def)
  have d: "\<not> connected (newClient None)" by code_simp
  have doc: "?doc = set_prop (set_prop (case None of None \<Rightarrow> [] | Some d \<Rightarrow> d) ''Name''
      (Str ''List Connected Devices'')) ''RequestID'' (Str ''r1'')" by simp
  have p: "(0::nat) = length (promises (newClient None))" by code_simp
  have q: "ws_queued = snd (ws_request ''r1'' ''List Connected Devices'' None None (newClient None))"
    by (simp add: ws_queued_def ws_run_def)
  have l: "ws_run json_parse [WsRetry 0, WsOpen, WsRetry 0, WsRetry 0, WsTimeout 0] ws_queued =
      ws_run json_parse [WsRetry 0, WsOpen, WsRetry 0, WsRetry 0, WsTimeout 0]
        (snd (ws_request ''r1'' ''List Connected Devices'' None None (newClient None)))"
    by (simp only: q)
  note t = queued_request_sent_once [where parse = json_parse and evs = "[]" and opts = None
      and tmo = None, OF r d doc p l]
  from t have 1: "intervals ws_queued 0 = Some ?doc" by (simp add: q)
  from t have 2: "sends 0 ws_queued = 0" by (simp add: q)
  from t have 3: "sends 0 (ws_run json_parse [WsRetry 0, WsOpen, WsRetry 0, WsRetry 0, WsTimeout 0]
      ws_queued) \<le> 1" by blast
  have v1: "written (ws_run json_parse [WsOpen, WsRetry 0, WsRetry 1, WsRetry 0, WsRetry 1] ws_two_queued) =
     [(0, [(''Name'', Str ''List Connected Devices''), (''RequestID'', Str ''r1'')]),
      (1, [(''Name'', Str ''List Discovered Devices''), (''RequestID'', Str ''r2'')])]"
    by code_simp
  have v2: "written (ws_run json_parse [WsTimeout 0, WsOpen, WsRetry 0, WsRetry 1] ws_two_queued) =
     [(1, [(''Name'', Str ''List Discovered Devices''), (''RequestID'', Str ''r2'')])]"
    by code_simp
  from d q 1 2 3 v1 v2 show ?thesis by blast
qed

section \<open>Colliding request ids\<close>

text \<open>
  C9. A request is issued on a connected Unix client, in any state a run reaches, under
  an id \<open>rid\<close> whose entry in the pool belongs to an earlier promise \<open>p\<close>. The new
  promise is another one, the entry under \<open>rid\<close> now belongs to it, and no entry
  belongs to \<open>p\<close> any more. If \<open>p\<close> was pending, its timer is still armed, and
  whatever happens afterwards it is pending or rejected by its timeout: it is never
  fulfilled. A response under \<open>rid\<close> fulfils the new promise and leaves \<open>p\<close> as it
  was.
\<close>

theorem collision_overwrites:
  assumes reach: "st = run parse evs (newUnixClient opts)"
    and entry: "pool st rid = Some p" and conn: "client st \<noteq> None"
  shows "fst (request rid data tmo st) = length (promises st) \<and> p < length (promises st) \<and>
         pool (snd (request rid data tmo st)) rid = Some (length (promises st)) \<and>
         (\<forall>k. pool (snd (request rid data tmo st)) k \<noteq> Some p) \<and>
         (promises st ! p = Pending \<longrightarrow>
            timers (snd (request rid data tmo st)) p \<noteq> None \<and>
            (\<forall>evs'. promises (run parse evs' (snd (request rid data tmo st))) ! p = Pending \<or>
                    promises (run parse evs' (snd (request rid data tmo st))) ! p =
                      Rejected ''Request timed out'')) \<and>
         promises (respond (Str rid) v (snd (request rid data tmo st))) ! length (promises st) =
           Fulfilled v \<and>
         promises (respond (Str rid) v (snd (request rid data tmo st))) ! p = promises st ! p"
proof -
  let ?n = "length (promises st)"
  let ?st = "snd (request rid data tmo st)"
  have c: "consistent st"
    unfolding reach by (rule consistent_reachable)
  have len: "p < ?n"
    using c entry by (rule consistent_entry)
  have 1: "fst (request rid data tmo st) = ?n"
    by (simp add: request_def Let_def)
  have pl: "pool ?st = (pool st)(rid \<mapsto> ?n)" and pr: "promises ?st = promises st @ [Pending]"
    and tm: "timers ?st = (timers st)(?n \<mapsto> delay_of tmo (timeout st))"
    using conn by (simp_all add: request_def Let_def)
  have 3: "pool ?st rid = Some ?n"
    by (simp add: pl)
  have 4: "pool ?st k \<noteq> Some p" for k
  proof (cases "k = rid")
    case True
    with len show ?thesis by (simp add: pl)
  next
    case False
    have "pool st k \<noteq> Some p"
      using consistent_inj [OF c _ entry, of k] False by blast
    with False show ?thesis by (simp add: pl)
  qed
  have 5: "timers ?st p \<noteq> None \<and>
      (\<forall>evs'. promises (run parse evs' ?st) ! p = Pending \<or>
              promises (run parse evs' ?st) ! p = Rejected ''Request timed out'')"
    if pen: "promises st ! p = Pending"
  proof -
    have "timers st p \<noteq> None"
      using c len pen by (rule consistent_pending)
    with len have a: "timers ?st p \<noteq> None" by (simp add: tm)
    have "orphan p ?st"
      using len pen 4 by (simp add: orphan_def pr nth_append)
    then have "\<And>evs'. orphan p (run parse evs' ?st)" by (rule orphan_run)
    with a show ?thesis by (simp add: orphan_def)
  qed
  have 6: "promises (respond (Str rid) v ?st) ! ?n = Fulfilled v"
    by (simp add: respond_promises pl pr settle_def)
  have 7: "promises (respond (Str rid) v ?st) ! p = promises st ! p"
    using len by (simp add: respond_promises pl pr settle_other nth_append)
  from 1 len 3 4 5 6 7 show ?thesis by blast
qed

theorem collision_overwrites_witness:
  "pool abc_pending ''abc'' = Some 0 \<and> client abc_pending \<noteq> None \<and>
   promises abc_pending ! 0 = Pending \<and>
   abc_twice = snd (request ''abc'' [] None abc_pending) \<and>
   pool abc_twice ''abc'' = Some 1 \<and>
   timers abc_twice 0 \<noteq> None \<and>
   promises (run json_parse [Data (abc_frame @ [EOT])] abc_twice) = [Pending, Fulfilled (Num 7)] \<and>
   (promises (run json_parse [Data (abc_frame @ [EOT]), Timeout 0] abc_twice) ! 0 = Pending \<or>
    promises (run json_parse [Data (abc_frame @ [EOT]), Timeout 0] abc_twice) ! 0 =
      Rejected ''Request timed out'') \<and>
   promises (run json_parse [Data (abc_frame @ [EOT]), Timeout 0] abc_twice) =
     [Rejected ''Request timed out'', Fulfilled (Num 7)]"
proof -
  have e: "pool abc_pending ''abc'' = Some 0" by code_simp
  have k: "client abc_pending \<noteq> None" by code_simp
  have p: "promises abc_pending ! 0 = Pending" by code_simp
  have n: "length (promises abc_pending) = 1" by code_simp
  have v1: "promises (run json_parse [Data (abc_frame @ [EOT])] abc_twice) = [Pending, Fulfilled (Num 7)]"
    by code_simp
  have v2: "promises (run json_parse [Data (abc_frame @ [EOT]), Timeout 0] abc_twice) =
     [Rejected ''Request timed out'', Fulfilled (Num 7)]" by code_simp
  note t = collision_overwrites [where parse = json_parse and st = abc_pending and rid = "''abc''"
      and p = 0 and data = "[]" and tmo = None, OF abc_pending_def e k, folded abc_twice_def]
  from t n have 1: "pool abc_twice ''abc'' = Some 1" by simp
  from t p have 2: "timers abc_twice 0 \<noteq> None" by blast
  from t p have 3: "promises (run json_parse [Data (abc_frame @ [EOT]), Timeout 0] abc_twice) ! 0 = Pending \<or>
    promises (run json_parse [Data (abc_frame @ [EOT]), Timeout 0] abc_twice) ! 0 =
      Rejected ''Request timed out''" by blast
  from e k p 1 2 3 v1 v2 show ?thesis by (simp add: abc_twice_def)
qed

section \<open>Calling destroy\<close>

text \<open>
  C10. \<^verbatim>\<open>destroy()\<close> is not a safe operation. On a client built by \<^verbatim>\<open>newUnixClient\<close> of
  \<^verbatim>\<open>src/index.js\<close>, after any run of events, \<^verbatim>\<open>protocol.destroy\<close> throws a TypeError
  (\<^verbatim>\<open>opts.destroy\<close> is never defined) and the client is left as it was. In the older
  client it throws a TypeError whenever the handle is \<^verbatim>\<open>null\<close>, which it is after every
  \<^verbatim>\<open>'error'\<close> and every \<^verbatim>\<open>'close'\<close> event.
\<close>

theorem destroy_throws:
  "protocol_destroy (run parse evs (newUnixClient opts)) = Inl TypeError \<and>
   step parse (run parse evs (newUnixClient opts)) Destroy = run parse evs (newUnixClient opts) \<and>
   (client st = None \<longrightarrow> old_destroy st = Inl TypeError \<and> old_step parse st OldDestroy = st) \<and>
   old_destroy (old_step parse st OldError) = Inl TypeError \<and>
   old_destroy (old_step parse st OldClose) = Inl TypeError"
  by (simp add: protocol_destroy_def run_destroy_field newUnixClient_destroy old_destroy_def
      on_error_def on_close_def)

theorem destroy_throws_witness:
  "client (old_run json_parse [OldRequest ''abc'' [], OldClose] (newUnixClient None)) = None \<and>
   old_destroy (old_run json_parse [OldRequest ''abc'' [], OldClose] (newUnixClient None)) = Inl TypeError \<and>
   protocol_destroy (run json_parse [Request ''abc'' [] None, Data frame_a] (newUnixClient None)) = Inl TypeError"
proof -
  let ?st = "old_run json_parse [OldRequest ''abc'' [], OldClose] (newUnixClient None)"
  have c: "client ?st = None"
    by (simp add: old_run_def on_close_def)
  from destroy_throws [of json_parse "[Request ''abc'' [] None, Data frame_a]" None ?st] c
  show ?thesis by simp
qed


end
